theory Spec2Isabelle
  imports Main
begin

chapter \<open>The CSS change engine and the session coordinator of the visual inspector\<close>

section \<open>JavaScript strings\<close>

text \<open>
  A \<^typ>\<open>string\<close> stands for a JavaScript string whose UTF-16 code units are all below 256;
  a \<^typ>\<open>char\<close> is one code unit.  \<open>is_space\<close> is the class \<^verbatim>\<open>\s\<close> of regular
  expressions, which is also the set removed by \<^verbatim>\<open>trim\<close>: TAB, LF, VT, FF, CR, SPACE and
  NBSP are its members below 256.
\<close>

definition is_space :: "char \<Rightarrow> bool" where
  "is_space c \<longleftrightarrow> of_char c \<in> {9, 10, 11, 12, 13, 32, 160 :: nat}"

definition trim :: "string \<Rightarrow> string" where
  "trim s = rev (dropWhile is_space (rev (dropWhile is_space s)))"

definition trimEnd :: "string \<Rightarrow> string" where
  "trimEnd s = rev (dropWhile is_space (rev s))"

text \<open>
  Matching under the flag \<^verbatim>\<open>i\<close> compares the upper-case images of two code units.  Below 256
  the letters \<^verbatim>\<open>a\<close>..\<^verbatim>\<open>z\<close> and the code units 224..254 other than 247 have an image inside
  the range; every other code unit is only equal to itself.
\<close>

definition canonicalize :: "char \<Rightarrow> char" where
  "canonicalize c =
     (let n = of_char c :: nat
      in if (97 \<le> n \<and> n \<le> 122) \<or> (224 \<le> n \<and> n \<le> 254 \<and> n \<noteq> 247)
         then char_of (n - 32) else c)"

definition ci_eq :: "char \<Rightarrow> char \<Rightarrow> bool" where
  "ci_eq a b \<longleftrightarrow> canonicalize a = canonicalize b"

text \<open>\<open>prefixBy eq p s\<close>: the literal pattern \<open>p\<close> matches at the start of \<open>s\<close>.\<close>

fun prefixBy :: "(char \<Rightarrow> char \<Rightarrow> bool) \<Rightarrow> string \<Rightarrow> string \<Rightarrow> bool" where
  "prefixBy eq [] s = True"
| "prefixBy eq (p # ps) [] = False"
| "prefixBy eq (p # ps) (c # cs) = (eq p c \<and> prefixBy eq ps cs)"

definition startsWith :: "string \<Rightarrow> string \<Rightarrow> bool" where
  "startsWith s p = prefixBy (=) p s"

text \<open>
  \<open>findBy eq p s\<close>: the leftmost occurrence of the literal \<open>p\<close> in \<open>s\<close>, as the text before it
  and the text after it.
\<close>

fun findBy :: "(char \<Rightarrow> char \<Rightarrow> bool) \<Rightarrow> string \<Rightarrow> string \<Rightarrow> (string \<times> string) option" where
  "findBy eq p [] = (if p = [] then Some ([], []) else None)"
| "findBy eq p (c # cs) =
     (if prefixBy eq p (c # cs) then Some ([], drop (length p) (c # cs))
      else (case findBy eq p cs of
              None \<Rightarrow> None
            | Some (pre, post) \<Rightarrow> Some (c # pre, post)))"

definition includes_str :: "string \<Rightarrow> string \<Rightarrow> bool" where
  "includes_str s p = (findBy (=) p s \<noteq> None)"

text \<open>
  \<^verbatim>\<open>GetSubstitution\<close> for a match without capture groups: in a replacement \<^emph>\<open>string\<close> the
  sequences \<^verbatim>\<open>$$\<close>, \<^verbatim>\<open>$&\<close>, \<^verbatim>\<open>$`\<close> and \<^verbatim>\<open>$'\<close> stand for a dollar sign, the matched text, the
  text before the match and the text after it; any other dollar sign is kept.
\<close>

fun getSubstitution :: "string \<Rightarrow> string \<Rightarrow> string \<Rightarrow> string \<Rightarrow> string" where
  "getSubstitution matched pre post [] = []"
| "getSubstitution matched pre post [c] = [c]"
| "getSubstitution matched pre post (c # d # t) =
     (if c = CHR ''$'' \<and> d = CHR ''$'' then CHR ''$'' # getSubstitution matched pre post t
      else if c = CHR ''$'' \<and> d = CHR ''&'' then matched @ getSubstitution matched pre post t
      else if c = CHR ''$'' \<and> d = CHR 0x60 then pre @ getSubstitution matched pre post t
      else if c = CHR ''$'' \<and> d = CHR 0x27 then post @ getSubstitution matched pre post t
      else c # getSubstitution matched pre post (d # t))"

text \<open>\<^verbatim>\<open>s.replace(p, r)\<close> with a string \<open>p\<close> and a string \<open>r\<close>: the first occurrence only.\<close>

definition replaceString :: "string \<Rightarrow> string \<Rightarrow> string \<Rightarrow> string" where
  "replaceString s p r =
     (case findBy (=) p s of
        None \<Rightarrow> s
      | Some (pre, post) \<Rightarrow> pre @ getSubstitution p pre post r @ post)"

section \<open>Selector normalisation\<close>

text \<open>\<^verbatim>\<open>s.replace(/\s+/g, ' ')\<close>: every maximal run of white space becomes one space.\<close>

function replaceSpaces :: "string \<Rightarrow> string" where
  "replaceSpaces [] = []"
| "replaceSpaces (c # cs) =
     (if is_space c then CHR '' '' # replaceSpaces (dropWhile is_space cs)
      else c # replaceSpaces cs)"
  by pat_completeness auto
termination
  by (relation "measure length") (auto simp: less_Suc_eq_le length_dropWhile_le)

text \<open>
  \<^verbatim>\<open>s.replace(/\s*x\s*/g, r)\<close> for a character \<open>x\<close> that is not white space.  At a position
  the pattern matches exactly when the white space starting there is followed by \<open>x\<close>; the match
  then extends over the white space after \<open>x\<close>, and scanning resumes behind it.  Without a match the
  character at the position is copied.
\<close>

function replaceAround :: "char \<Rightarrow> string \<Rightarrow> string \<Rightarrow> string" where
  "replaceAround x r [] = []"
| "replaceAround x r (c # cs) =
     (case dropWhile is_space (c # cs) of
        [] \<Rightarrow> c # replaceAround x r cs
      | d # ds \<Rightarrow>
          if d = x then r @ replaceAround x r (dropWhile is_space ds)
          else c # replaceAround x r cs)"
  by pat_completeness auto
termination
proof (relation "measure (\<lambda>(x, r, s). length s)", goal_cases)
  case 1
  show ?case by simp
next
  case (2 x r c cs)
  then show ?case by simp
next
  case (3 x r c cs d ds)
  have "length (dropWhile is_space ds) \<le> length ds"
    by (rule length_dropWhile_le)
  moreover have "length (d # ds) \<le> length (c # cs)"
    using 3(1)[symmetric] length_dropWhile_le[of is_space "c # cs"] by simp
  ultimately show ?case by simp
next
  case 4
  then show ?case by simp
qed

definition normalizeSelector :: "string \<Rightarrow> string" where
  "normalizeSelector selector =
     replaceAround CHR '','' '', ''
       (replaceAround CHR ''>'' '' > ''
         (replaceSpaces (trim selector)))"


section \<open>The libraries\<close>

text \<open>
  The parser, the generator and the tree walker belong to the library \<^verbatim>\<open>css-tree\<close>, not to
  this program.  The tree is modelled as far as the walker looks at it: a style sheet and a block
  are lists of nodes; a rule has a prelude and a block; an at-rule has a block or is a statement;
  a declaration has a property, a value and the \<^verbatim>\<open>important\<close> flag.  Preludes, values and all
  other nodes are opaque values of type \<open>'x\<close>.  The parser and the generator are parameters;
  a parser call that throws returns \<open>None\<close>.

  The regular expressions of the program are modelled one by one below, except the one that the
  text patcher builds from a property in which some character has a meaning in a pattern: that
  one is left to the engine, the parameter \<open>regexp\<close>.  For the source \<open>src\<close> of a pattern,
  \<open>regexp src\<close> is \<open>None\<close> when \<^verbatim>\<open>new RegExp(src, 'gi')\<close> throws; otherwise it maps a text \<open>s\<close> and a
  replacement string \<open>r\<close> to \<open>None\<close> when \<^verbatim>\<open>test(s)\<close> is false and to \<^verbatim>\<open>s.replace(re, r)\<close>
  when it is true.
\<close>

datatype 'x node =
    Declaration string 'x bool
  | Rule 'x "'x node list"
  | Atrule 'x "'x node list"
  | AtruleStatement 'x
  | Other 'x

record 'x library =
  parse :: "string \<Rightarrow> 'x node list option"
  parse_value :: "string \<Rightarrow> 'x option"
  generate :: "'x node list \<Rightarrow> string"
  generate_node :: "'x \<Rightarrow> string"
  regexp :: "string \<Rightarrow> (string \<Rightarrow> string \<Rightarrow> string option) option"

section \<open>The mutation engine\<close>

record CssChange =
  selector :: string
  property :: string
  css_value :: string

text \<open>
  The inner walk \<^verbatim>\<open>csstree.walk(block, {visit: 'Declaration', ...})\<close>: it reaches every
  declaration below the block, also those of nested rules and at-rules.  The callback assigns
  the parsed value \<open>v\<close> (\<open>None\<close> when parsing it throws) to each declaration of property \<open>p\<close>.
  The Boolean is the variable \<^verbatim>\<open>propertyFound\<close>.
\<close>

fun setDeclarations :: "string \<Rightarrow> 'x option \<Rightarrow> 'x node list \<Rightarrow> (bool \<times> 'x node list) option" where
  "setDeclarations p v [] = Some (False, [])"
| "setDeclarations p v (Declaration q w i # ns) =
     (case (if q = p then map_option (\<lambda>v'. (True, v')) v else Some (False, w),
            setDeclarations p v ns) of
        (Some (f, w'), Some (g, ns')) \<Rightarrow> Some (f \<or> g, Declaration q w' i # ns')
      | _ \<Rightarrow> None)"
| "setDeclarations p v (Rule pre b # ns) =
     (case (setDeclarations p v b, setDeclarations p v ns) of
        (Some (f, b'), Some (g, ns')) \<Rightarrow> Some (f \<or> g, Rule pre b' # ns')
      | _ \<Rightarrow> None)"
| "setDeclarations p v (Atrule x b # ns) =
     (case (setDeclarations p v b, setDeclarations p v ns) of
        (Some (f, b'), Some (g, ns')) \<Rightarrow> Some (f \<or> g, Atrule x b' # ns')
      | _ \<Rightarrow> None)"
| "setDeclarations p v (AtruleStatement x # ns) =
     (case setDeclarations p v ns of
        Some (g, ns') \<Rightarrow> Some (g, AtruleStatement x # ns')
      | None \<Rightarrow> None)"
| "setDeclarations p v (Other x # ns) =
     (case setDeclarations p v ns of
        Some (g, ns') \<Rightarrow> Some (g, Other x # ns')
      | None \<Rightarrow> None)"

text \<open>
  The callback of the outer walk, for a rule with prelude \<open>pre\<close> and block \<open>b\<close>.  The result is
  the new block and whether \<^verbatim>\<open>modified\<close> was set.  The library gives every rule a block of
  type \<^verbatim>\<open>Block\<close>, so the test \<^verbatim>\<open>block && block.type === 'Block'\<close> holds.
\<close>

definition enterRule :: "'x library \<Rightarrow> CssChange \<Rightarrow> 'x \<Rightarrow> 'x node list \<Rightarrow> (bool \<times> 'x node list) option" where
  "enterRule lib change pre b =
     (if normalizeSelector (generate_node lib pre) = normalizeSelector (selector change) then
        (case setDeclarations (property change) (parse_value lib (css_value change)) b of
           None \<Rightarrow> None
         | Some (propertyFound, b') \<Rightarrow>
             if propertyFound then Some (True, b')
             else (case parse_value lib (css_value change) of
                     None \<Rightarrow> None
                   | Some v \<Rightarrow> Some (True, b' @ [Declaration (property change) v False])))
      else Some (False, b))"

text \<open>A measure for the outer walk: it descends into the block that the callback has changed.\<close>

fun weight :: "'x node list \<Rightarrow> nat" where
  "weight [] = 0"
| "weight (Rule pre b # ns) = 2 + weight b + weight ns"
| "weight (Atrule x b # ns) = 2 + weight b + weight ns"
| "weight (Declaration q w i # ns) = 1 + weight ns"
| "weight (AtruleStatement x # ns) = 1 + weight ns"
| "weight (Other x # ns) = 1 + weight ns"

text \<open>
  The outer walk \<^verbatim>\<open>csstree.walk(ast, {visit: 'Rule', enter ...})\<close>: every rule of the tree in
  document order, a rule before the rules nested in its block.  The Boolean is the variable
  \<^verbatim>\<open>modified\<close>; \<open>None\<close> is an exception thrown by the callback.
\<close>

function walkRules :: "'x library \<Rightarrow> CssChange \<Rightarrow> 'x node list \<Rightarrow> (bool \<times> 'x node list) option" where
  "walkRules lib change [] = Some (False, [])"
| "walkRules lib change (Rule pre b # ns) =
     (case enterRule lib change pre b of
        None \<Rightarrow> None
      | Some (m, b1) \<Rightarrow>
          (case (walkRules lib change b1, walkRules lib change ns) of
             (Some (m1, b2), Some (m2, ns')) \<Rightarrow> Some (m \<or> m1 \<or> m2, Rule pre b2 # ns')
           | _ \<Rightarrow> None))"
| "walkRules lib change (Atrule x b # ns) =
     (case (walkRules lib change b, walkRules lib change ns) of
        (Some (m1, b'), Some (m2, ns')) \<Rightarrow> Some (m1 \<or> m2, Atrule x b' # ns')
      | _ \<Rightarrow> None)"
| "walkRules lib change (Declaration q w i # ns) =
     (case walkRules lib change ns of
        Some (m, ns') \<Rightarrow> Some (m, Declaration q w i # ns')
      | None \<Rightarrow> None)"
| "walkRules lib change (AtruleStatement x # ns) =
     (case walkRules lib change ns of
        Some (m, ns') \<Rightarrow> Some (m, AtruleStatement x # ns')
      | None \<Rightarrow> None)"
| "walkRules lib change (Other x # ns) =
     (case walkRules lib change ns of
        Some (m, ns') \<Rightarrow> Some (m, Other x # ns')
      | None \<Rightarrow> None)"
  by pat_completeness auto
termination
proof (relation "measure (\<lambda>(lib, change, ns). weight ns)", goal_cases)
  case 1
  show ?case by simp
next
  case (2 lib change pre b ns m_b1 m b1)
  have keep: "setDeclarations p v xs = Some (f, ys) \<Longrightarrow> weight ys = weight xs"
    for p and v :: "'a option" and xs ys f
    by (induction p v xs arbitrary: f ys rule: setDeclarations.induct)
       (auto split: if_splits option.splits)
  have app: "weight (xs @ [Declaration q w i]) = Suc (weight xs)" for xs :: "'a node list" and q w i
    by (induction xs rule: weight.induct) auto
  from 2 have "weight b1 \<le> Suc (weight b)"
    unfolding enterRule_def
    by (auto simp: keep app split: if_splits option.splits)
  then show ?case by simp
qed simp_all

section \<open>The text patcher\<close>

text \<open>
  \<^verbatim>\<open>applyWithRegex\<close> builds two regular expressions from the change.  In the first one every
  character of the selector with a meaning in a pattern is escaped, so that the selector stands
  for itself:
  \<^verbatim>\<open>(SELECTOR\s*\{[^}]*)\}\<close> with the flags \<^verbatim>\<open>gi\<close>.
  \<open>selectorBlockAt sel s\<close> is the match of this expression at the start of \<open>s\<close>, given by its
  group 1 (the match is the group followed by the closing brace).
\<close>

definition selectorBlockAt :: "string \<Rightarrow> string \<Rightarrow> string option" where
  "selectorBlockAt sel s =
     (if prefixBy ci_eq sel s then
        (case dropWhile is_space (drop (length sel) s) of
           [] \<Rightarrow> None
         | b # r \<Rightarrow>
             if b = CHR ''{'' then
               (case dropWhile (\<lambda>c. c \<noteq> CHR ''}'') r of
                  [] \<Rightarrow> None
                | e # r' \<Rightarrow> Some (take (length s - length (e # r')) s))
             else None)
      else None)"

text \<open>
  The second expression, \<^verbatim>\<open>PROPERTY\s*:[^;]+;?\<close> with the flags \<^verbatim>\<open>gi\<close>, embeds the property
  unescaped.  For a property in which no character has a meaning in a pattern
  (\<open>plainPattern\<close>) the property stands for itself, and \<open>propertyAt p s\<close> is the length of the
  match at the start of \<open>s\<close>.  For any other property the expression is the one that the engine
  makes of it.
\<close>

definition plainPattern :: "string \<Rightarrow> bool" where
  "plainPattern p = list_all (\<lambda>c. c \<notin> set (CHR 0x5C # ''^$.*+?()[]{}|'')) p"

definition propertyAt :: "string \<Rightarrow> string \<Rightarrow> nat option" where
  "propertyAt p s =
     (if prefixBy ci_eq p s then
        (case dropWhile is_space (drop (length p) s) of
           [] \<Rightarrow> None
         | b # r \<Rightarrow>
             if b = CHR '':'' \<and> takeWhile (\<lambda>c. c \<noteq> CHR '';'') r \<noteq> [] then
               Some (length s - length (drop 1 (dropWhile (\<lambda>c. c \<noteq> CHR '';'') r)))
             else None)
      else None)"

text \<open>\<^verbatim>\<open>propertyRegex.test(s)\<close>: a match at some position.\<close>

fun testProperty :: "string \<Rightarrow> string \<Rightarrow> bool" where
  "testProperty p [] = False"
| "testProperty p (c # cs) = (propertyAt p (c # cs) \<noteq> None \<or> testProperty p cs)"

text \<open>
  \<^verbatim>\<open>s.replace(propertyRegex, r)\<close> with a replacement string \<open>r\<close>; \<open>done\<close> is the part of the
  input before the position, which \<^verbatim>\<open>$`\<close> refers to.
\<close>

function replaceProperty :: "string \<Rightarrow> string \<Rightarrow> string \<Rightarrow> string \<Rightarrow> string" where
  "replaceProperty p r done [] = []"
| "replaceProperty p r done (c # cs) =
     (case propertyAt p (c # cs) of
        None \<Rightarrow> c # replaceProperty p r (done @ [c]) cs
      | Some n \<Rightarrow>
          getSubstitution (take n (c # cs)) done (drop n (c # cs)) r
            @ replaceProperty p r (done @ take n (c # cs)) (drop (n - 1) cs))"
  by pat_completeness auto
termination
  by (relation "measure (\<lambda>(p, r, done, s). length s)") auto

text \<open>
  The property expression applied to a text: \<open>None\<close> when constructing it throws; otherwise
  \<open>None\<close> when \<^verbatim>\<open>test\<close> is false and the result of \<^verbatim>\<open>replace\<close> with the replacement string \<open>r\<close>
  when it is true.
\<close>

definition propertyRegex :: "'x library \<Rightarrow> string \<Rightarrow> string \<Rightarrow> string \<Rightarrow> string option option" where
  "propertyRegex lib p s r =
     (if plainPattern p then
        Some (if testProperty p s then Some (replaceProperty p r [] s) else None)
      else
        (case regexp lib (p @ [CHR 0x5C] @ ''s*:[^;]+;?'') of
           None \<Rightarrow> None
         | Some re \<Rightarrow> Some (re s r)))"

text \<open>
  The callback of the block replacement; \<open>pre\<close> is group 1 of the match.  \<open>None\<close> is the
  exception of the constructor.
\<close>

definition regexCallback :: "'x library \<Rightarrow> CssChange \<Rightarrow> string \<Rightarrow> string option" where
  "regexCallback lib change pre =
     (case propertyRegex lib (property change) pre
             (property change @ '': '' @ css_value change @ '';'') of
        None \<Rightarrow> None
      | Some (Some replaced) \<Rightarrow> Some (replaced @ ''}'')
      | Some None \<Rightarrow>
          Some (trimEnd pre @ [CHR 0x0A] @ ''  '' @ property change @ '': '' @ css_value change
                  @ '';'' @ [CHR 0x0A] @ ''}''))"

text \<open>
  \<^verbatim>\<open>css.replace(selectorRegex, callback)\<close>: at each position either a block matches, the
  callback gives its replacement and scanning resumes behind the closing brace, or the character
  is copied.  The Boolean is the variable \<^verbatim>\<open>modified\<close>; \<open>None\<close> is an exception of the callback.
\<close>

function replaceBlocks :: "'x library \<Rightarrow> CssChange \<Rightarrow> string \<Rightarrow> (bool \<times> string) option" where
  "replaceBlocks lib change [] = Some (False, [])"
| "replaceBlocks lib change (c # cs) =
     (case selectorBlockAt (selector change) (c # cs) of
        None \<Rightarrow>
          (case replaceBlocks lib change cs of
             None \<Rightarrow> None
           | Some (m, out) \<Rightarrow> Some (m, c # out))
      | Some pre \<Rightarrow>
          (case (regexCallback lib change pre, replaceBlocks lib change (drop (length pre) cs)) of
             (Some r, Some (m, out)) \<Rightarrow> Some (True, r @ out)
           | _ \<Rightarrow> None))"
  by pat_completeness auto
termination
  by (relation "measure (\<lambda>(lib, change, s). length s)") auto

definition applyWithRegex :: "'x library \<Rightarrow> string \<Rightarrow> CssChange \<Rightarrow> (bool \<times> string) option" where
  "applyWithRegex lib css change = replaceBlocks lib change css"

text \<open>
  \<^verbatim>\<open>modifyCssContent\<close>: the structured engine, and the text patcher when the parser throws,
  for the fragment or for the value.  \<open>None\<close> is an exception of the text patcher, which is
  thrown inside the handler and leaves the function.
\<close>

definition modifyCssContent :: "'x library \<Rightarrow> string \<Rightarrow> CssChange \<Rightarrow> (bool \<times> string) option" where
  "modifyCssContent lib css change =
     (case parse lib css of
        None \<Rightarrow> applyWithRegex lib css change
      | Some ast \<Rightarrow>
          (case walkRules lib change ast of
             None \<Rightarrow> applyWithRegex lib css change
           | Some (modified, ast') \<Rightarrow>
               if modified then Some (True, generate lib ast') else Some (False, css)))"

section \<open>Style blocks and linked style sheets of a document\<close>

text \<open>
  \<^verbatim>\<open>/<style[^>]*>([\s\S]*?)<\/style>/gi\<close> at the start of \<open>s\<close>: the opening tag ends at the next
  \<^verbatim>\<open>>\<close>, the content at the next closing tag.  The result is the match and its group 1.
\<close>

definition styleAt :: "string \<Rightarrow> (string \<times> string) option" where
  "styleAt s =
     (if prefixBy ci_eq ''<style'' s then
        (case dropWhile (\<lambda>c. c \<noteq> CHR ''>'') (drop 6 s) of
           [] \<Rightarrow> None
         | g # r \<Rightarrow>
             (case findBy ci_eq ''</style>'' r of
                None \<Rightarrow> None
              | Some (cssContent, post) \<Rightarrow> Some (take (length s - length post) s, cssContent)))
      else None)"

text \<open>
  \<^verbatim>\<open>applyToInlineStyle\<close>: \<^verbatim>\<open>html.replace(styleRegex, callback)\<close>.  The callback runs the
  mutation engine on group 1 and, when it has modified it, returns
  \<^verbatim>\<open>match.replace(cssContent, result.content)\<close>.  The Boolean is the variable \<^verbatim>\<open>found\<close>.
\<close>

function replaceStyles :: "'x library \<Rightarrow> CssChange \<Rightarrow> string \<Rightarrow> (bool \<times> string) option" where
  "replaceStyles lib change [] = Some (False, [])"
| "replaceStyles lib change (c # cs) =
     (case styleAt (c # cs) of
        None \<Rightarrow>
          (case replaceStyles lib change cs of
             None \<Rightarrow> None
           | Some (found, out) \<Rightarrow> Some (found, c # out))
      | Some (matched, cssContent) \<Rightarrow>
          (case (modifyCssContent lib cssContent change,
                 replaceStyles lib change (drop (length matched - 1) cs)) of
             (Some (modified, content), Some (found, out)) \<Rightarrow>
               if modified then Some (True, replaceString matched cssContent content @ out)
               else Some (found, matched @ out)
           | _ \<Rightarrow> None))"
  by pat_completeness auto
termination
  by (relation "measure (\<lambda>(lib, change, s). length s)") auto

definition applyToInlineStyle :: "'x library \<Rightarrow> string \<Rightarrow> CssChange \<Rightarrow> (bool \<times> string) option" where
  "applyToInlineStyle lib html change = replaceStyles lib change html"

text \<open>The loop \<^verbatim>\<open>while ((match = styleRegex.exec(html)) !== null)\<close>: group 1 of every match.\<close>

function styleContents :: "string \<Rightarrow> string list" where
  "styleContents [] = []"
| "styleContents (c # cs) =
     (case styleAt (c # cs) of
        None \<Rightarrow> styleContents cs
      | Some (matched, cssContent) \<Rightarrow> cssContent # styleContents (drop (length matched - 1) cs))"
  by pat_completeness auto
termination
  by (relation "measure length") auto

text \<open>
  \<^verbatim>\<open>/<link[^>]+rel=["']stylesheet["'][^>]+href=["']([^"']+)["']/gi\<close>.  Each of the two
  \<^verbatim>\<open>[^>]+\<close> is greedy: it first takes every character up to the next \<^verbatim>\<open>>\<close> and gives
  characters back one by one until the rest of the pattern matches.  \<open>afterNotGt r\<close> lists what
  remains of \<open>r\<close> in that order.
\<close>

definition is_quote :: "char \<Rightarrow> bool" where
  "is_quote c \<longleftrightarrow> c = CHR 0x22 \<or> c = CHR 0x27"

definition afterNotGt :: "string \<Rightarrow> string list" where
  "afterNotGt r =
     map (\<lambda>k. drop k r) (rev [1 ..< Suc (length (takeWhile (\<lambda>c. c \<noteq> CHR ''>'') r))])"

fun firstSome :: "('a \<Rightarrow> 'b option) \<Rightarrow> 'a list \<Rightarrow> 'b option" where
  "firstSome f [] = None"
| "firstSome f (x # xs) = (case f x of None \<Rightarrow> firstSome f xs | Some y \<Rightarrow> Some y)"

text \<open>\<^verbatim>\<open>rel=["']stylesheet["']\<close> at the start of \<open>r\<close>: what follows the match.\<close>

definition relAt :: "string \<Rightarrow> string option" where
  "relAt r =
     (if prefixBy ci_eq ''rel='' r then
        (case drop 4 r of
           [] \<Rightarrow> None
         | q # r1 \<Rightarrow>
             if is_quote q \<and> prefixBy ci_eq ''stylesheet'' r1 then
               (case drop 10 r1 of
                  [] \<Rightarrow> None
                | q' # r2 \<Rightarrow> if is_quote q' then Some r2 else None)
             else None)
      else None)"

text \<open>\<^verbatim>\<open>href=["']([^"']+)["']\<close> at the start of \<open>r\<close>: group 1 and what follows the match.\<close>

definition hrefAt :: "string \<Rightarrow> (string \<times> string) option" where
  "hrefAt r =
     (if prefixBy ci_eq ''href='' r then
        (case drop 5 r of
           [] \<Rightarrow> None
         | q # r1 \<Rightarrow>
             if is_quote q \<and> takeWhile (\<lambda>c. \<not> is_quote c) r1 \<noteq> [] then
               (case dropWhile (\<lambda>c. \<not> is_quote c) r1 of
                  [] \<Rightarrow> None
                | q' # r2 \<Rightarrow> Some (takeWhile (\<lambda>c. \<not> is_quote c) r1, r2))
             else None)
      else None)"

definition linkAt :: "string \<Rightarrow> (string \<times> string) option" where
  "linkAt s =
     (if prefixBy ci_eq ''<link'' s then
        firstSome
          (\<lambda>r. case relAt r of None \<Rightarrow> None | Some r' \<Rightarrow> firstSome hrefAt (afterNotGt r'))
          (afterNotGt (drop 5 s))
      else None)"

text \<open>The loop \<^verbatim>\<open>while ((match = linkRegex.exec(html)) !== null)\<close>: group 1 of every match.\<close>

function linkedHrefs :: "string \<Rightarrow> string list" where
  "linkedHrefs [] = []"
| "linkedHrefs (c # cs) =
     (case linkAt (c # cs) of
        None \<Rightarrow> linkedHrefs cs
      | Some (href, rest) \<Rightarrow> href # linkedHrefs (drop (length cs - length rest) cs))"
  by pat_completeness auto
termination
  by (relation "measure length") auto

text \<open>The functions of \<^verbatim>\<open>node:path\<close> that the program calls are parameters.\<close>

record path =
  resolve :: "string \<Rightarrow> string"
  resolve_from :: "string \<Rightarrow> string \<Rightarrow> string"
  dirname :: "string \<Rightarrow> string"
  basename :: "string \<Rightarrow> string"

definition findLinkedCssFiles :: "path \<Rightarrow> string \<Rightarrow> string \<Rightarrow> string list" where
  "findLinkedCssFiles pth html baseDir =
     map (resolve_from pth baseDir)
       (filter (\<lambda>href. \<not> startsWith href ''http://'' \<and> \<not> startsWith href ''https://''
                        \<and> \<not> startsWith href ''//'')
          (linkedHrefs html))"

text \<open>The text of the new style block, the constant \<^verbatim>\<open>newStyle\<close> of \<^verbatim>\<open>addStyleBlock\<close>.\<close>

definition newStyle :: "CssChange \<Rightarrow> string" where
  "newStyle change =
     [CHR 0x0A] @ ''<style>'' @ [CHR 0x0A] @ selector change @ '' {'' @ [CHR 0x0A]
       @ ''  '' @ property change @ '': '' @ css_value change @ '';'' @ [CHR 0x0A]
       @ ''}'' @ [CHR 0x0A] @ ''</style>''"

definition addStyleBlock :: "string \<Rightarrow> CssChange \<Rightarrow> string" where
  "addStyleBlock html change =
     (if includes_str html ''</head>''
      then replaceString html ''</head>'' (newStyle change @ [CHR 0x0A] @ ''</head>'')
      else newStyle change @ [CHR 0x0A] @ html)"

section \<open>The file system\<close>

text \<open>
  What exists under an absolute path is a text file or a directory; \<^verbatim>\<open>node:fs\<close> resolves the
  path it is given.  \<^verbatim>\<open>existsSync\<close> is true of both.  \<^verbatim>\<open>readFileSync\<close> throws (\<open>None\<close>) for a
  path that does not exist and for a directory; \<^verbatim>\<open>writeFileSync\<close> throws for a directory and
  otherwise makes the path a file with the given text.  \<open>writes\<close> records the calls of
  \<^verbatim>\<open>writeFileSync\<close> that returned, with their arguments.
\<close>

datatype entry = File string | Directory

record world =
  files :: "string \<rightharpoonup> entry"
  writes :: "(string \<times> string) list"

definition existsSync :: "path \<Rightarrow> world \<Rightarrow> string \<Rightarrow> bool" where
  "existsSync pth w p \<longleftrightarrow> files w (resolve pth p) \<noteq> None"

definition readFileSync :: "path \<Rightarrow> world \<Rightarrow> string \<Rightarrow> string option" where
  "readFileSync pth w p =
     (case files w (resolve pth p) of
        Some (File text) \<Rightarrow> Some text
      | _ \<Rightarrow> None)"

definition writeFileSync :: "path \<Rightarrow> world \<Rightarrow> string \<Rightarrow> string \<Rightarrow> world option" where
  "writeFileSync pth w p text =
     (case files w (resolve pth p) of
        Some Directory \<Rightarrow> None
      | _ \<Rightarrow> Some (w\<lparr>files := (files w)(resolve pth p \<mapsto> File text),
                     writes := writes w @ [(p, text)]\<rparr>))"

section \<open>The application engine\<close>

record ApplyResult =
  success :: bool
  message :: string
  modifiedFile :: "string option"

definition applyToCssFile :: "'x library \<Rightarrow> path \<Rightarrow> world \<Rightarrow> string \<Rightarrow> CssChange \<Rightarrow> (bool \<times> world) option" where
  "applyToCssFile lib pth w cssPath change =
     (if \<not> existsSync pth w cssPath then Some (False, w)
      else
        (case readFileSync pth w cssPath of
           None \<Rightarrow> None
         | Some cssContent \<Rightarrow>
             (case modifyCssContent lib cssContent change of
                None \<Rightarrow> None
              | Some (modified, text) \<Rightarrow>
                  if modified then
                    (case writeFileSync pth w cssPath text of
                       None \<Rightarrow> None
                     | Some w' \<Rightarrow> Some (True, w'))
                  else Some (False, w))))"

text \<open>
  The loop over the linked files of \<^verbatim>\<open>applyCssChange\<close>: the first file in which the engine
  finds the selector, if any.  In \<open>applyToCssFile\<close>, in this loop and in \<open>applyCssChange\<close>
  the result \<open>None\<close> is an exception: of a read, of a write or of the text patcher.
\<close>

fun applyToLinked :: "'x library \<Rightarrow> path \<Rightarrow> world \<Rightarrow> CssChange \<Rightarrow> string list \<Rightarrow> (string option \<times> world) option" where
  "applyToLinked lib pth w change [] = Some (None, w)"
| "applyToLinked lib pth w change (cssFile # linkedCss) =
     (case applyToCssFile lib pth w cssFile change of
        None \<Rightarrow> None
      | Some (found, w') \<Rightarrow>
          if found then Some (Some cssFile, w')
          else applyToLinked lib pth w' change linkedCss)"

definition applyCssChange :: "'x library \<Rightarrow> path \<Rightarrow> world \<Rightarrow> string \<Rightarrow> CssChange \<Rightarrow> (ApplyResult \<times> world) option" where
  "applyCssChange lib pth w htmlPath change =
     (let absolutePath = resolve pth htmlPath in
      if \<not> existsSync pth w absolutePath then
        Some (\<lparr>success = False, message = ''Archivo no encontrado: '' @ htmlPath,
                modifiedFile = None\<rparr>, w)
      else
        (case readFileSync pth w absolutePath of
           None \<Rightarrow> None
         | Some htmlContent \<Rightarrow>
             (case applyToInlineStyle lib htmlContent change of
                None \<Rightarrow> None
              | Some (found, text) \<Rightarrow>
                  if found then
                    (case writeFileSync pth w absolutePath text of
                       None \<Rightarrow> None
                     | Some w' \<Rightarrow>
                         Some (\<lparr>success = True,
                                 message = ''CSS aplicado en <style> de '' @ basename pth htmlPath,
                                 modifiedFile = Some absolutePath\<rparr>, w'))
                  else
                    (case applyToLinked lib pth w change
                            (findLinkedCssFiles pth htmlContent (dirname pth absolutePath)) of
                       None \<Rightarrow> None
                     | Some (Some cssFile, w') \<Rightarrow>
                         Some (\<lparr>success = True,
                                 message = ''CSS aplicado en '' @ basename pth cssFile,
                                 modifiedFile = Some cssFile\<rparr>, w')
                     | Some (None, w') \<Rightarrow>
                         (case writeFileSync pth w' absolutePath
                                 (addStyleBlock htmlContent change) of
                            None \<Rightarrow> None
                          | Some w'' \<Rightarrow>
                              Some (\<lparr>success = True,
                                      message = ''Nuevo estilo a'' @ [CHR 0xF1] @ ''adido a ''
                                                  @ basename pth htmlPath,
                                      modifiedFile = Some absolutePath\<rparr>, w''))))))"

section \<open>Reading the styles of a selector\<close>

text \<open>The declarations that the inner walk of \<^verbatim>\<open>extractStylesFromCss\<close> visits, in order.\<close>

fun declarationsOf :: "'x node list \<Rightarrow> (string \<times> 'x) list" where
  "declarationsOf [] = []"
| "declarationsOf (Declaration q w i # ns) = (q, w) # declarationsOf ns"
| "declarationsOf (Rule pre b # ns) = declarationsOf b @ declarationsOf ns"
| "declarationsOf (Atrule x b # ns) = declarationsOf b @ declarationsOf ns"
| "declarationsOf (AtruleStatement x # ns) = declarationsOf ns"
| "declarationsOf (Other x # ns) = declarationsOf ns"

text \<open>The assignments \<^verbatim>\<open>styles[decl.property] = ...\<close> of the outer walk, in order.\<close>

fun collectStyles :: "'x library \<Rightarrow> string \<Rightarrow> 'x node list \<Rightarrow> (string \<times> 'x) list" where
  "collectStyles lib target [] = []"
| "collectStyles lib target (Rule pre b # ns) =
     (if normalizeSelector (generate_node lib pre) = normalizeSelector target
      then declarationsOf b else [])
     @ collectStyles lib target b @ collectStyles lib target ns"
| "collectStyles lib target (Atrule x b # ns) =
     collectStyles lib target b @ collectStyles lib target ns"
| "collectStyles lib target (Declaration q w i # ns) = collectStyles lib target ns"
| "collectStyles lib target (AtruleStatement x # ns) = collectStyles lib target ns"
| "collectStyles lib target (Other x # ns) = collectStyles lib target ns"

text \<open>
  An assignment to a key of a plain object; the key \<^verbatim>\<open>__proto__\<close> is the accessor of
  \<^verbatim>\<open>Object.prototype\<close>, which ignores a string.
\<close>

definition assign :: "(string \<rightharpoonup> string) \<Rightarrow> string \<Rightarrow> string \<Rightarrow> (string \<rightharpoonup> string)" where
  "assign st k v = (if k = ''__proto__'' then st else st(k \<mapsto> v))"

definition extractStylesFromCss :: "'x library \<Rightarrow> string \<Rightarrow> string \<Rightarrow> (string \<rightharpoonup> string)" where
  "extractStylesFromCss lib css targetSelector =
     (case parse lib css of
        None \<Rightarrow> Map.empty
      | Some ast \<Rightarrow>
          foldl (\<lambda>st (q, w). assign st q (generate_node lib w)) Map.empty
            (collectStyles lib targetSelector ast))"

text \<open>
  \<^verbatim>\<open>getStylesForSelector\<close>; \<^verbatim>\<open>Object.assign(styles, x)\<close> is \<open>styles ++ x\<close>.  \<open>None\<close> is the
  exception of a read.
\<close>

definition linkedStyles :: "'x library \<Rightarrow> path \<Rightarrow> world \<Rightarrow> string \<Rightarrow> (string \<rightharpoonup> string) \<Rightarrow> string \<Rightarrow> (string \<rightharpoonup> string) option" where
  "linkedStyles lib pth w sel st cssFile =
     (if existsSync pth w cssFile then
        (case readFileSync pth w cssFile of
           None \<Rightarrow> None
         | Some cssContent \<Rightarrow> Some (st ++ extractStylesFromCss lib cssContent sel))
      else Some st)"

fun foldLinked :: "'x library \<Rightarrow> path \<Rightarrow> world \<Rightarrow> string \<Rightarrow> (string \<rightharpoonup> string) \<Rightarrow> string list \<Rightarrow> (string \<rightharpoonup> string) option" where
  "foldLinked lib pth w sel st [] = Some st"
| "foldLinked lib pth w sel st (cssFile # linkedCss) =
     (case linkedStyles lib pth w sel st cssFile of
        None \<Rightarrow> None
      | Some st' \<Rightarrow> foldLinked lib pth w sel st' linkedCss)"

definition getStylesForSelector :: "'x library \<Rightarrow> path \<Rightarrow> world \<Rightarrow> string \<Rightarrow> string \<Rightarrow> (string \<rightharpoonup> string) option" where
  "getStylesForSelector lib pth w htmlPath sel =
     (if \<not> existsSync pth w htmlPath then Some Map.empty
      else
        (case readFileSync pth w htmlPath of
           None \<Rightarrow> None
         | Some htmlContent \<Rightarrow>
             foldLinked lib pth w sel
               (foldl (\<lambda>st cssContent. st ++ extractStylesFromCss lib cssContent sel) Map.empty
                  (styleContents htmlContent))
               (findLinkedCssFiles pth htmlContent (dirname pth htmlPath))))"

section \<open>The session coordinator\<close>

record SelectedElement =
  el_selector :: string
  tag :: string
  line :: int
  styles :: "(string \<times> string) list"

record Document =
  filePath :: string
  content :: string

text \<open>
  An incoming message by its \<^verbatim>\<open>type\<close>, with its payload if it has one; an outgoing message;
  the two ways in which the promise of a waiter is settled.
\<close>

datatype incoming =
    ElementSelected "SelectedElement option"
  | Ping
  | Ready
  | LoadHtml "Document option"
  | ApplyCss "CssChange option"
  | UnknownType string

datatype outgoing =
    Pong
  | LoadHtmlOut Document
  | CssApplied CssChange

datatype settlement =
    Resolved "SelectedElement option"
  | Rejected

text \<open>
  The module state of the coordinator and what it acts on.  A waiter is the \<^verbatim>\<open>resolve\<close>
  function of one call of \<^verbatim>\<open>waitForSelection\<close>; it is named by the number of the call.
  \<open>timers\<close> are the waiters whose \<^verbatim>\<open>setTimeout\<close> callback has not run yet, \<open>settled\<close> the calls
  of \<^verbatim>\<open>resolve\<close> and \<^verbatim>\<open>reject\<close>, \<open>sent\<close> the calls of \<^verbatim>\<open>send\<close> by client, \<open>logged\<close> the
  calls of \<^verbatim>\<open>console.error\<close>.  A connected client is paired with whether its \<^verbatim>\<open>readyState\<close>
  is \<^verbatim>\<open>OPEN\<close>.
\<close>

record session =
  selectedElement :: "SelectedElement option"
  currentHtml :: "Document option"
  selectionResolvers :: "nat list"
  connectedClients :: "(nat \<times> bool) list"
  timers :: "nat list"
  nextWaiter :: nat
  settled :: "(nat \<times> settlement) list"
  sent :: "(nat \<times> outgoing) list"
  logged :: "string list"
  disk :: world

definition broadcast :: "outgoing \<Rightarrow> session \<Rightarrow> session" where
  "broadcast msg st =
     st\<lparr>sent := sent st @ map (\<lambda>client. (fst client, msg)) (filter snd (connectedClients st))\<rparr>"

text \<open>
  \<^verbatim>\<open>handleMessage(message, ws)\<close>.  The result is \<open>None\<close> where \<^verbatim>\<open>applyCssChange\<close> or the read
  after it throws.
\<close>

fun handleMessage :: "'x library \<Rightarrow> path \<Rightarrow> session \<Rightarrow> incoming \<Rightarrow> nat \<Rightarrow> session option" where
  "handleMessage lib pth st (ElementSelected payload) ws =
     Some (st\<lparr>selectedElement := payload,
              settled := settled st @ map (\<lambda>r. (r, Resolved payload)) (selectionResolvers st),
              selectionResolvers := []\<rparr>)"
| "handleMessage lib pth st Ping ws = Some (st\<lparr>sent := sent st @ [(ws, Pong)]\<rparr>)"
| "handleMessage lib pth st Ready ws =
     (case currentHtml st of
        None \<Rightarrow> Some st
      | Some doc \<Rightarrow> Some (st\<lparr>sent := sent st @ [(ws, LoadHtmlOut doc)]\<rparr>))"
| "handleMessage lib pth st (LoadHtml payload) ws =
     (case payload of
        None \<Rightarrow> Some st
      | Some htmlPayload \<Rightarrow>
          Some (broadcast (LoadHtmlOut htmlPayload) (st\<lparr>currentHtml := Some htmlPayload\<rparr>)))"
| "handleMessage lib pth st (ApplyCss payload) ws =
     (case (payload, currentHtml st) of
        (Some cssPayload, Some doc) \<Rightarrow>
          (case applyCssChange lib pth (disk st) (filePath doc) cssPayload of
             None \<Rightarrow> None
           | Some (result, w') \<Rightarrow>
               if success result then
                 (case readFileSync pth w' (filePath doc) of
                    None \<Rightarrow> None
                  | Some updatedContent \<Rightarrow>
                      Some (broadcast (CssApplied cssPayload)
                             (broadcast (LoadHtmlOut \<lparr>filePath = filePath doc, content = updatedContent\<rparr>)
                                (st\<lparr>disk := w',
                                    currentHtml :=
                                      Some \<lparr>filePath = filePath doc, content = updatedContent\<rparr>\<rparr>))))
               else Some (st\<lparr>disk := w'\<rparr>))
      | _ \<Rightarrow> Some st)"
| "handleMessage lib pth st (UnknownType t) ws =
     Some (st\<lparr>logged := logged st @ [''Mensaje WS desconocido: '' @ t]\<rparr>)"

text \<open>
  \<^verbatim>\<open>waitForSelection\<close>: the call numbered \<open>nextWaiter\<close>.  With a selection its promise is
  resolved at once; otherwise its waiter joins the queue and its timer is started.
\<close>

definition waitForSelection :: "session \<Rightarrow> session" where
  "waitForSelection st =
     (case selectedElement st of
        Some element \<Rightarrow>
          st\<lparr>settled := settled st @ [(nextWaiter st, Resolved (Some element))],
             nextWaiter := Suc (nextWaiter st)\<rparr>
      | None \<Rightarrow>
          st\<lparr>selectionResolvers := selectionResolvers st @ [nextWaiter st],
             timers := timers st @ [nextWaiter st],
             nextWaiter := Suc (nextWaiter st)\<rparr>)"

text \<open>
  The callback of the timer of waiter \<open>r\<close>: \<^verbatim>\<open>indexOf\<close> and \<^verbatim>\<open>splice\<close> remove the first
  occurrence of the waiter from the queue, and the promise is rejected, if the waiter is still
  in the queue.
\<close>

definition timeout :: "session \<Rightarrow> nat \<Rightarrow> session" where
  "timeout st r =
     (if r \<in> set (selectionResolvers st) then
        st\<lparr>selectionResolvers := remove1 r (selectionResolvers st),
           settled := settled st @ [(r, Rejected)],
           timers := remove1 r (timers st)\<rparr>
      else st\<lparr>timers := remove1 r (timers st)\<rparr>)"

text \<open>
  What the event loop runs, one at a time: a message of a client, a call of
  \<^verbatim>\<open>waitForSelection\<close>, and the callback of a started timer.  The delay of a timer is not
  part of the model: its callback is an event that comes at some time after the call.  The
  caller of \<^verbatim>\<open>handleMessage\<close> catches and logs an exception of the handler; a run of the model
  ends at such an exception, with the result \<open>None\<close>.
\<close>

datatype event =
    Message incoming nat
  | WaitForSelection
  | TimerFires nat

fun step :: "'x library \<Rightarrow> path \<Rightarrow> session \<Rightarrow> event \<Rightarrow> session option" where
  "step lib pth st (Message m ws) = handleMessage lib pth st m ws"
| "step lib pth st WaitForSelection = Some (waitForSelection st)"
| "step lib pth st (TimerFires r) = Some (if r \<in> set (timers st) then timeout st r else st)"

fun run :: "'x library \<Rightarrow> path \<Rightarrow> session \<Rightarrow> event list \<Rightarrow> session option" where
  "run lib pth st [] = Some st"
| "run lib pth st (e # es) =
     (case step lib pth st e of
        None \<Rightarrow> None
      | Some st' \<Rightarrow> run lib pth st' es)"

definition initial :: "world \<Rightarrow> session" where
  "initial w =
     \<lparr>selectedElement = None, currentHtml = None, selectionResolvers = [],
      connectedClients = [], timers = [], nextWaiter = 0, settled = [], sent = [],
      logged = [], disk = w\<rparr>"

section \<open>Notions used in the proofs\<close>

text \<open>
  A string is a list of chunks, each a run of white space followed by a character that is not
  white space, and a last run of white space.  Every pass of \<open>normalizeSelector\<close> keeps the
  characters of the chunks and replaces the white space of a chunk by a string that depends on
  it, on the character of the chunk and on the character of the chunk before.
\<close>

type_synonym chunk = "string \<times> char"

fun unchunk :: "chunk list \<Rightarrow> string \<Rightarrow> string" where
  "unchunk [] tr = tr"
| "unchunk ((ws, c) # cs) tr = ws @ c # unchunk cs tr"

fun wf_chunks :: "chunk list \<Rightarrow> bool" where
  "wf_chunks [] = True"
| "wf_chunks ((ws, c) # cs) = (list_all is_space ws \<and> \<not> is_space c \<and> wf_chunks cs)"

fun mapPrev :: "(char option \<Rightarrow> string \<Rightarrow> char \<Rightarrow> string) \<Rightarrow> char option \<Rightarrow> chunk list \<Rightarrow> chunk list" where
  "mapPrev h p [] = []"
| "mapPrev h p ((ws, c) # cs) = (h p ws c, c) # mapPrev h (Some c) cs"

fun lastc :: "char option \<Rightarrow> chunk list \<Rightarrow> char option" where
  "lastc p [] = p"
| "lastc p ((ws, c) # cs) = lastc (Some c) cs"

definition squeeze :: "string \<Rightarrow> string" where
  "squeeze ws = (if ws = [] then [] else '' '')"

definition h_around :: "char \<Rightarrow> string \<Rightarrow> string \<Rightarrow> char option \<Rightarrow> string \<Rightarrow> char \<Rightarrow> string" where
  "h_around x pl pr p ws c =
     (if c = x then (if p = Some x then pr else []) @ pl
      else if p = Some x then pr else ws)"

definition t_around :: "char \<Rightarrow> string \<Rightarrow> char option \<Rightarrow> string \<Rightarrow> string" where
  "t_around x pr p tr = (if p = Some x then pr else tr)"

definition h_norm :: "char option \<Rightarrow> string \<Rightarrow> char \<Rightarrow> string" where
  "h_norm p ws c =
     h_around CHR '','' [] '' '' p
       (h_around CHR ''>'' '' '' '' '' p (squeeze (if p = None then [] else ws)) c) c"

definition t_norm :: "char option \<Rightarrow> string" where
  "t_norm p = t_around CHR '','' '' '' p (t_around CHR ''>'' '' '' p [])"


text \<open>
  What the walk of the mutation engine computes when the value of the change parses to \<open>v\<close>:
  the preludes of all rules of a tree in document order; the declarations of a property below a
  block, at any depth, with their value replaced; the block of a matching rule after the
  callback; the tree after the walk.
\<close>

definition matchesSelector :: "'x library \<Rightarrow> CssChange \<Rightarrow> 'x \<Rightarrow> bool" where
  "matchesSelector lib change pre \<longleftrightarrow>
     normalizeSelector (generate_node lib pre) = normalizeSelector (selector change)"

fun preludes :: "'x node list \<Rightarrow> 'x list" where
  "preludes [] = []"
| "preludes (Rule pre b # ns) = pre # preludes b @ preludes ns"
| "preludes (Atrule x b # ns) = preludes b @ preludes ns"
| "preludes (Declaration q w i # ns) = preludes ns"
| "preludes (AtruleStatement x # ns) = preludes ns"
| "preludes (Other x # ns) = preludes ns"

fun replaceValues :: "string \<Rightarrow> 'x \<Rightarrow> 'x node list \<Rightarrow> 'x node list" where
  "replaceValues p v [] = []"
| "replaceValues p v (Declaration q w i # ns) =
     Declaration q (if q = p then v else w) i # replaceValues p v ns"
| "replaceValues p v (Rule pre b # ns) = Rule pre (replaceValues p v b) # replaceValues p v ns"
| "replaceValues p v (Atrule x b # ns) = Atrule x (replaceValues p v b) # replaceValues p v ns"
| "replaceValues p v (AtruleStatement x # ns) = AtruleStatement x # replaceValues p v ns"
| "replaceValues p v (Other x # ns) = Other x # replaceValues p v ns"

definition enteredBlock :: "string \<Rightarrow> 'x \<Rightarrow> 'x node list \<Rightarrow> 'x node list" where
  "enteredBlock p v b =
     (if p \<in> fst ` set (declarationsOf b) then replaceValues p v b
      else b @ [Declaration p v False])"

function walkedTree :: "'x library \<Rightarrow> CssChange \<Rightarrow> 'x \<Rightarrow> 'x node list \<Rightarrow> 'x node list" where
  "walkedTree lib change v [] = []"
| "walkedTree lib change v (Rule pre b # ns) =
     Rule pre (walkedTree lib change v
                 (if matchesSelector lib change pre then enteredBlock (property change) v b else b))
       # walkedTree lib change v ns"
| "walkedTree lib change v (Atrule x b # ns) =
     Atrule x (walkedTree lib change v b) # walkedTree lib change v ns"
| "walkedTree lib change v (Declaration q w i # ns) = Declaration q w i # walkedTree lib change v ns"
| "walkedTree lib change v (AtruleStatement x # ns) = AtruleStatement x # walkedTree lib change v ns"
| "walkedTree lib change v (Other x # ns) = Other x # walkedTree lib change v ns"
  by pat_completeness auto
termination
proof (relation "measure (\<lambda>(lib, change, v, ns). weight ns)", goal_cases)
  case 1
  show ?case by simp
next
  case (2 lib change v pre b ns)
  have keep: "weight (replaceValues p u xs) = weight xs" for p and u :: 'a and xs
    by (induction p u xs rule: replaceValues.induct) auto
  have app: "weight (xs @ [Declaration q w i]) = Suc (weight xs)" for xs :: "'a node list" and q w i
    by (induction xs rule: weight.induct) auto
  show ?case by (simp add: enteredBlock_def keep app)
qed simp_all

text \<open>
  The update as the specification words it, to be compared with the walk.  A declaration of the
  property exists in the block of a rule when a node of the block is one; then the value of
  these declarations is replaced by \<open>v\<close>, and otherwise a declaration of the property with
  the value \<open>v\<close> is appended at the end of the block.  Every rule of the tree whose selector
  matches has its block updated in this way.
\<close>

fun declares :: "string \<Rightarrow> 'x node \<Rightarrow> bool" where
  "declares p (Declaration q w i) = (q = p)"
| "declares p (Rule pre b) = False"
| "declares p (Atrule x b) = False"
| "declares p (AtruleStatement x) = False"
| "declares p (Other x) = False"

fun replaceValue :: "string \<Rightarrow> 'x \<Rightarrow> 'x node \<Rightarrow> 'x node" where
  "replaceValue p v (Declaration q w i) = Declaration q (if q = p then v else w) i"
| "replaceValue p v (Rule pre b) = Rule pre b"
| "replaceValue p v (Atrule x b) = Atrule x b"
| "replaceValue p v (AtruleStatement x) = AtruleStatement x"
| "replaceValue p v (Other x) = Other x"

definition updateBlock :: "string \<Rightarrow> 'x \<Rightarrow> 'x node list \<Rightarrow> 'x node list" where
  "updateBlock p v b =
     (if list_ex (declares p) b then map (replaceValue p v) b
      else b @ [Declaration p v False])"

fun specMutate :: "'x library \<Rightarrow> CssChange \<Rightarrow> 'x \<Rightarrow> 'x node list \<Rightarrow> 'x node list" where
  "specMutate lib change v [] = []"
| "specMutate lib change v (Rule pre b # ns) =
     Rule pre (if matchesSelector lib change pre
               then updateBlock (property change) v (specMutate lib change v b)
               else specMutate lib change v b)
       # specMutate lib change v ns"
| "specMutate lib change v (Atrule x b # ns) =
     Atrule x (specMutate lib change v b) # specMutate lib change v ns"
| "specMutate lib change v (Declaration q w i # ns) = Declaration q w i # specMutate lib change v ns"
| "specMutate lib change v (AtruleStatement x # ns) = AtruleStatement x # specMutate lib change v ns"
| "specMutate lib change v (Other x # ns) = Other x # specMutate lib change v ns"

text \<open>
  The declarations of the rules and at-rules nested in a block, at any depth.  In a \<open>shallow\<close>
  tree no rule whose selector matches has a declaration of the property of the change in a rule
  or at-rule nested in its block.
\<close>

fun nestedDeclarations :: "'x node list \<Rightarrow> (string \<times> 'x) list" where
  "nestedDeclarations [] = []"
| "nestedDeclarations (Rule pre b # ns) = declarationsOf b @ nestedDeclarations ns"
| "nestedDeclarations (Atrule x b # ns) = declarationsOf b @ nestedDeclarations ns"
| "nestedDeclarations (Declaration q w i # ns) = nestedDeclarations ns"
| "nestedDeclarations (AtruleStatement x # ns) = nestedDeclarations ns"
| "nestedDeclarations (Other x # ns) = nestedDeclarations ns"

fun shallow :: "'x library \<Rightarrow> CssChange \<Rightarrow> 'x node list \<Rightarrow> bool" where
  "shallow lib change [] = True"
| "shallow lib change (Rule pre b # ns) =
     ((matchesSelector lib change pre \<longrightarrow>
         property change \<notin> fst ` set (nestedDeclarations b))
      \<and> shallow lib change b \<and> shallow lib change ns)"
| "shallow lib change (Atrule x b # ns) = (shallow lib change b \<and> shallow lib change ns)"
| "shallow lib change (Declaration q w i # ns) = shallow lib change ns"
| "shallow lib change (AtruleStatement x # ns) = shallow lib change ns"
| "shallow lib change (Other x # ns) = shallow lib change ns"

text \<open>
  A text cut into segments by the matches of a global regular expression: a character that no
  match covers, or a match with its group 1.  \<open>styleSegments\<close> are the segments of a document
  for the expression of the embedded style blocks, \<open>blockSegments\<close> those of a style sheet for
  the selector expression of the text patcher.
\<close>

datatype segment = Plain char | Element string string

fun segmentText :: "segment \<Rightarrow> string" where
  "segmentText (Plain c) = [c]"
| "segmentText (Element matched inner) = matched"

function styleSegments :: "string \<Rightarrow> segment list" where
  "styleSegments [] = []"
| "styleSegments (c # cs) =
     (case styleAt (c # cs) of
        None \<Rightarrow> Plain c # styleSegments cs
      | Some (matched, cssContent) \<Rightarrow>
          Element matched cssContent # styleSegments (drop (length matched - 1) cs))"
  by pat_completeness auto
termination
  by (relation "measure length") auto

function blockSegments :: "string \<Rightarrow> string \<Rightarrow> segment list" where
  "blockSegments sel [] = []"
| "blockSegments sel (c # cs) =
     (case selectorBlockAt sel (c # cs) of
        None \<Rightarrow> Plain c # blockSegments sel cs
      | Some pre \<Rightarrow> Element (pre @ ''}'') pre # blockSegments sel (drop (length pre) cs))"
  by pat_completeness auto
termination
  by (relation "measure (\<lambda>(sel, s). length s)") auto

fun isElement :: "segment \<Rightarrow> bool" where
  "isElement (Plain c) = False"
| "isElement (Element matched inner) = True"

text \<open>
  The text patcher on one segment; the pieces put together, unless the callback has thrown on
  one of them.
\<close>

fun patchSegment :: "'x library \<Rightarrow> CssChange \<Rightarrow> segment \<Rightarrow> string option" where
  "patchSegment lib change (Plain c) = Some [c]"
| "patchSegment lib change (Element matched pre) = regexCallback lib change pre"

fun joinSegments :: "string option list \<Rightarrow> string option" where
  "joinSegments [] = Some []"
| "joinSegments (None # xs) = None"
| "joinSegments (Some x # xs) = map_option (\<lambda>out. x @ out) (joinSegments xs)"

text \<open>
  An embedded style block is its opening tag, its content and its closing tag of eight
  characters.  The update of a document as the specification words it: each embedded block
  that the mutation engine modifies has its content replaced by the result, and everything else
  is kept.  In a \<open>safeSegment\<close> the content of the block does not occur in the text of the block
  before its own place, and the result of the engine has no dollar sign.
\<close>

definition openingTag :: "string \<Rightarrow> string \<Rightarrow> string" where
  "openingTag matched cssContent = take (length matched - length cssContent - 8) matched"

definition closingTag :: "string \<Rightarrow> string" where
  "closingTag matched = drop (length matched - 8) matched"

fun specSegment :: "'x library \<Rightarrow> CssChange \<Rightarrow> segment \<Rightarrow> string" where
  "specSegment lib change (Plain c) = [c]"
| "specSegment lib change (Element matched cssContent) =
     (case modifyCssContent lib cssContent change of
        Some (True, out) \<Rightarrow> openingTag matched cssContent @ out @ closingTag matched
      | _ \<Rightarrow> matched)"

fun safeSegment :: "'x library \<Rightarrow> CssChange \<Rightarrow> segment \<Rightarrow> bool" where
  "safeSegment lib change (Plain c) = True"
| "safeSegment lib change (Element matched cssContent) =
     (findBy (=) cssContent matched
        = Some (openingTag matched cssContent, closingTag matched)
      \<and> (case modifyCssContent lib cssContent change of
           Some (True, out) \<Rightarrow> CHR ''$'' \<notin> set out
         | _ \<Rightarrow> True))"

text \<open>
  A small instance of the library for the examples: nodes are strings, the generator prints a
  tree without white space, the parser knows the texts of a few trees and throws on every other
  text, and the parser of values throws on a value with an exclamation mark, as the library
  does on \<^verbatim>\<open>red !important\<close>.  No example has a property with a pattern character, and the
  engine of regular expressions is left out.
\<close>

fun demoGenerate :: "string node list \<Rightarrow> string" where
  "demoGenerate [] = []"
| "demoGenerate (Declaration q w i # ns) = q @ '':'' @ w @ '';'' @ demoGenerate ns"
| "demoGenerate (Rule pre b # ns) = pre @ ''{'' @ demoGenerate b @ ''}'' @ demoGenerate ns"
| "demoGenerate (Atrule x b # ns) = x @ ''{'' @ demoGenerate b @ ''}'' @ demoGenerate ns"
| "demoGenerate (AtruleStatement x # ns) = x @ '';'' @ demoGenerate ns"
| "demoGenerate (Other x # ns) = x @ demoGenerate ns"

definition demoSheet :: "string node list" where
  "demoSheet =
     [Rule ''h1'' [Declaration ''color'' ''blue'' False],
      Atrule ''@media print'' [Rule ''h1'' [Declaration ''margin'' ''0'' False]],
      Rule ''p'' [Declaration ''color'' ''blue'' False]]"

definition demoTrees :: "(string \<times> string node list) list" where
  "demoTrees =
     [(demoGenerate demoSheet, demoSheet),
      (''h1{color:green;}'', [Rule ''h1'' [Declaration ''color'' ''green'' False]]),
      (''h1{color:blue;}'', [Rule ''h1'' [Declaration ''color'' ''blue'' False]]),
      ([], []),
      (''.a>.b{color:blue;}'', [Rule ''.a>.b'' [Declaration ''color'' ''blue'' False]]),
      (''.a > .b{color:green;}'', [Rule ''.a>.b'' [Declaration ''color'' ''green'' False]]),
      (''.card{color:blue;}.Card{color:blue;}'',
         [Rule ''.card'' [Declaration ''color'' ''blue'' False],
          Rule ''.Card'' [Declaration ''color'' ''blue'' False]]),
      (''.card{color:blue;}.Card  {color:blue;}'',
         [Rule ''.card'' [Declaration ''color'' ''blue'' False],
          Rule ''.Card'' [Declaration ''color'' ''blue'' False]]),
      (''.a{&:hover{margin:5px;}}'',
         [Rule ''.a'' [Rule ''&:hover'' [Declaration ''margin'' ''5px'' False]]])]"

definition demoParse :: "string \<Rightarrow> string node list option" where
  "demoParse s = map_of demoTrees s"

definition demoLib :: "string library" where
  "demoLib =
     \<lparr>parse = demoParse,
      parse_value = (\<lambda>s. if CHR ''!'' \<in> set s then None else Some s),
      generate = demoGenerate, generate_node = id,
      regexp = (\<lambda>src. None)\<rparr>"

text \<open>
  For the examples: paths below the directory \<^verbatim>\<open>/site\<close>, and a few files.  The index page
  has a link to \<^verbatim>\<open>main.css\<close> and an embedded block; both have a rule for \<^verbatim>\<open>h1\<close>.  The first
  embedded block of \<^verbatim>\<open>broken.html\<close> is not a text that the parser of the examples accepts.
  The page \<^verbatim>\<open>cards.html\<close> has a link to \<^verbatim>\<open>child.css\<close> and an embedded block; both have a rule
  for the child selector, written with and without white space.  The embedded block of
  \<^verbatim>\<open>titled.html\<close> has a \<^verbatim>\<open>title\<close> that repeats its content.  In the second world there is also
  a directory \<^verbatim>\<open>assets\<close>, and a page with a link to it.
\<close>

definition demoPath :: path where
  "demoPath =
     \<lparr>resolve = (\<lambda>p. if startsWith p ''/'' then p else ''/site/'' @ p),
      resolve_from = (\<lambda>d h. if startsWith h ''/'' then h else d @ ''/'' @ h),
      dirname = (\<lambda>p. rev (drop 1 (dropWhile (\<lambda>c. c \<noteq> CHR ''/'') (rev p)))),
      basename = (\<lambda>p. rev (takeWhile (\<lambda>c. c \<noteq> CHR ''/'') (rev p)))\<rparr>"

definition demoIndex :: string where
  "demoIndex =
     ''<head><link rel='' @ [CHR 0x22] @ ''stylesheet'' @ [CHR 0x22] @ '' href='' @ [CHR 0x22]
       @ ''main.css'' @ [CHR 0x22] @ ''><style>'' @ demoGenerate demoSheet @ ''</style></head>''"

definition demoCards :: string where
  "demoCards =
     ''<link rel='' @ [CHR 0x22] @ ''stylesheet'' @ [CHR 0x22] @ '' href='' @ [CHR 0x22]
       @ ''child.css'' @ [CHR 0x22] @ ''><style>.a>.b{color:blue;}</style>''"

definition demoTitled :: string where
  "demoTitled =
     ''<style title='' @ [CHR 0x22] @ ''h1{color:blue;}'' @ [CHR 0x22]
       @ ''>h1{color:blue;}</style>''"

definition demoGallery :: string where
  "demoGallery =
     ''<link rel='' @ [CHR 0x22] @ ''stylesheet'' @ [CHR 0x22] @ '' href='' @ [CHR 0x22]
       @ ''assets'' @ [CHR 0x22] @ ''><style>h1{color:green;}</style>''"

definition demoWorld :: world where
  "demoWorld =
     \<lparr>files = [''/site/index.html'' \<mapsto> File demoIndex,
               ''/site/main.css'' \<mapsto> File ''h1{color:green;}'',
               ''/site/page.html'' \<mapsto> File ''<head></head><body></body>'',
               ''/site/broken.html'' \<mapsto>
                  File ''<style>h1{{</style><style>h1{color:green;}</style>'',
               ''/site/cards.html'' \<mapsto> File demoCards,
               ''/site/child.css'' \<mapsto> File ''.a > .b{color:green;}'',
               ''/site/titled.html'' \<mapsto> File demoTitled],
      writes = []\<rparr>"

definition galleryWorld :: world where
  "galleryWorld =
     demoWorld\<lparr>files := (files demoWorld)(''/site/assets'' \<mapsto> Directory,
                                            ''/site/gallery.html'' \<mapsto> File demoGallery)\<rparr>"

definition h1red :: CssChange where
  "h1red = \<lparr>selector = ''h1'', property = ''color'', css_value = ''red''\<rparr>"

definition dollarSign :: CssChange where
  "dollarSign =
     \<lparr>selector = ''.price::before'', property = ''content'',
      css_value = [CHR 0x27] @ ''$'' @ [CHR 0x27]\<rparr>"

definition childRed :: CssChange where
  "childRed = \<lparr>selector = ''.a > .b'', property = ''color'', css_value = ''red''\<rparr>"

definition childImportant :: CssChange where
  "childImportant =
     \<lparr>selector = ''.a > .b'', property = ''color'', css_value = ''red !important''\<rparr>"

definition cardImportant :: CssChange where
  "cardImportant =
     \<lparr>selector = ''.card'', property = ''color'', css_value = ''red !important''\<rparr>"

definition marginZero :: CssChange where
  "marginZero = \<lparr>selector = ''.a'', property = ''margin'', css_value = ''0''\<rparr>"

text \<open>
  The property expression of the text patcher can be constructed for a property: the property
  has no pattern character, or the engine accepts the source of the expression.
\<close>

definition constructs :: "'x library \<Rightarrow> string \<Rightarrow> bool" where
  "constructs lib p \<longleftrightarrow>
     plainPattern p
     \<or> (case regexp lib (p @ [CHR 0x5C] @ ''s*:[^;]+;?'') of None \<Rightarrow> False | Some re \<Rightarrow> True)"

text \<open>What a call of \<open>applyCssChange\<close> reports and the calls of \<open>writeFileSync\<close> after it.\<close>

definition outcome :: "(ApplyResult \<times> world) option \<Rightarrow> (bool \<times> string option \<times> (string \<times> string) list) option" where
  "outcome = map_option (\<lambda>(r, w'). (success r, modifiedFile r, writes w'))"

text \<open>
  The fragments that \<open>getStylesForSelector\<close> reads: the embedded blocks of the document and
  the texts of the linked files.  The invariant of the queue of waiters.  A selection and a
  sequence of events for the examples.
\<close>

definition cssFragments :: "path \<Rightarrow> world \<Rightarrow> string \<Rightarrow> string \<Rightarrow> string list" where
  "cssFragments pth w htmlPath html =
     styleContents html
     @ List.map_filter (readFileSync pth w) (findLinkedCssFiles pth html (dirname pth htmlPath))"

definition waiters_ok :: "session \<Rightarrow> bool" where
  "waiters_ok st \<longleftrightarrow>
     distinct (selectionResolvers st)
     \<and> distinct (map fst (settled st))
     \<and> set (selectionResolvers st) \<inter> fst ` set (settled st) = {}
     \<and> set (selectionResolvers st) \<union> fst ` set (settled st) = {..< nextWaiter st}
     \<and> set (selectionResolvers st) \<subseteq> set (timers st)"

definition heading :: SelectedElement where
  "heading = \<lparr>el_selector = ''h1'', tag = ''h1'', line = 3, styles = [(''color'', ''blue'')]\<rparr>"

definition demoEvents :: "event list" where
  "demoEvents =
     [WaitForSelection, WaitForSelection, TimerFires 0, Message (ElementSelected (Some heading)) 7,
      TimerFires 1, WaitForSelection]"

section \<open>Selector normalisation is idempotent\<close>

lemma chunks_exist: "\<exists>cs tr. wf_chunks cs \<and> list_all is_space tr \<and> s = unchunk cs tr"
proof (induction s)
  case Nil
  have "wf_chunks [] \<and> list_all is_space [] \<and> [] = unchunk [] []" by simp
  then show ?case by blast
next
  case (Cons a s)
  then obtain cs tr where h: "wf_chunks cs" "list_all is_space tr" "s = unchunk cs tr" by blast
  show ?case
  proof (cases "is_space a")
    case False
    with h have "wf_chunks (([], a) # cs) \<and> list_all is_space tr \<and> a # s = unchunk (([], a) # cs) tr"
      by simp
    then show ?thesis by blast
  next
    case True
    show ?thesis
    proof (cases cs)
      case Nil
      with h True have "wf_chunks [] \<and> list_all is_space (a # tr) \<and> a # s = unchunk [] (a # tr)"
        by simp
      then show ?thesis by blast
    next
      case (Cons k ks)
      obtain ws c where k: "k = (ws, c)" by (cases k)
      with h True Cons
      have "wf_chunks ((a # ws, c) # ks) \<and> list_all is_space tr \<and> a # s = unchunk ((a # ws, c) # ks) tr"
        by simp
      then show ?thesis by blast
    qed
  qed
qed

lemma dropWhile_all_space: "list_all is_space ws \<Longrightarrow> dropWhile is_space (ws @ u) = dropWhile is_space u"
  by (induction ws) auto

lemma dropWhile_spaces: "list_all is_space tr \<Longrightarrow> dropWhile is_space tr = []"
  by (simp add: list_all_iff)

lemma dropWhile_unchunk:
  "wf_chunks cs \<Longrightarrow> list_all is_space tr \<Longrightarrow>
   dropWhile is_space (unchunk cs tr) =
     (case cs of [] \<Rightarrow> [] | (ws, c) # cs' \<Rightarrow> c # unchunk cs' tr)"
  by (cases cs) (auto simp: dropWhile_all_space list_all_iff)

lemma rtrim_all_space: "list_all is_space tr \<Longrightarrow> rev (dropWhile is_space (rev tr)) = []"
  by (simp add: list_all_iff)

lemma rtrim_chunk:
  "\<not> is_space c \<Longrightarrow>
   rev (dropWhile is_space (rev (ws @ c # u))) = ws @ c # rev (dropWhile is_space (rev u))"
  by (simp add: dropWhile_append)

lemma rtrim_unchunk:
  "wf_chunks cs \<Longrightarrow> list_all is_space tr \<Longrightarrow>
   rev (dropWhile is_space (rev (unchunk cs tr))) = unchunk cs []"
proof (induction cs)
  case Nil
  then show ?case by (simp add: rtrim_all_space)
next
  case (Cons k cs)
  obtain ws c where k: "k = (ws, c)" by (cases k)
  with Cons show ?case by (simp add: rtrim_chunk del: rev_append rev.simps)
qed

lemma trim_unchunk:
  assumes "wf_chunks cs" "list_all is_space tr"
  shows "trim (unchunk cs tr) = unchunk (mapPrev (\<lambda>p ws c. if p = None then [] else ws) None cs) []"
proof (cases cs)
  case Nil
  with assms(2) show ?thesis by (simp add: trim_def dropWhile_spaces)
next
  case (Cons k ks)
  obtain ws c where k: "k = (ws, c)" by (cases k)
  have same: "mapPrev (\<lambda>p ws c. if p = None then [] else ws) (Some d) ks = ks" for d
    by (induction ks arbitrary: d) auto
  have "dropWhile is_space (unchunk cs tr) = unchunk (([], c) # ks) tr"
    using assms Cons k by (simp add: dropWhile_all_space)
  moreover have "wf_chunks (([], c) # ks)" using assms Cons k by simp
  ultimately have "trim (unchunk cs tr) = unchunk (([], c) # ks) []"
    using assms(2) unfolding trim_def by (simp only: rtrim_unchunk)
  then show ?thesis using Cons k same by simp
qed


lemma replaceSpaces_run:
  "list_all is_space ws \<Longrightarrow> ws \<noteq> [] \<Longrightarrow> u = [] \<or> \<not> is_space (hd u) \<Longrightarrow>
   replaceSpaces (ws @ u) = CHR '' '' # replaceSpaces u"
proof (cases ws)
  case Nil
  assume "ws \<noteq> []" with Nil show ?thesis by simp
next
  case (Cons w ws')
  assume a: "list_all is_space ws" "u = [] \<or> \<not> is_space (hd u)"
  have "dropWhile is_space u = u" using a(2) by (cases u) auto
  with a(1) Cons have "dropWhile is_space (ws' @ u) = u" by (simp add: dropWhile_all_space)
  with a(1) Cons show ?thesis by simp
qed

lemma replaceSpaces_unchunk:
  "wf_chunks cs \<Longrightarrow> list_all is_space tr \<Longrightarrow>
   replaceSpaces (unchunk cs tr) = unchunk (mapPrev (\<lambda>p ws c. squeeze ws) p cs) (squeeze tr)"
proof (induction cs arbitrary: p)
  case Nil
  then show ?case using replaceSpaces_run[of tr "[]"] by (auto simp: squeeze_def)
next
  case (Cons k cs)
  obtain ws c where k: "k = (ws, c)" by (cases k)
  from Cons.prems k have wf: "list_all is_space ws" "\<not> is_space c" "wf_chunks cs" by simp_all
  have ih: "replaceSpaces (unchunk cs tr) = unchunk (mapPrev (\<lambda>p ws c. squeeze ws) (Some c) cs) (squeeze tr)"
    using Cons.IH wf(3) Cons.prems(2) by blast
  show ?case
  proof (cases "ws = []")
    case True
    with k wf ih show ?thesis by (simp add: squeeze_def)
  next
    case False
    with wf have "replaceSpaces (ws @ c # unchunk cs tr) = CHR '' '' # replaceSpaces (c # unchunk cs tr)"
      by (intro replaceSpaces_run) simp_all
    with k wf ih False show ?thesis by (simp add: squeeze_def)
  qed
qed

lemma replaceAround_match:
  "list_all is_space ws \<Longrightarrow> \<not> is_space x \<Longrightarrow>
   replaceAround x r (ws @ x # u) = r @ replaceAround x r (dropWhile is_space u)"
  by (cases ws) (simp_all add: dropWhile_all_space)

lemma replaceAround_copy:
  "list_all is_space ws \<Longrightarrow> \<not> is_space c \<Longrightarrow> c \<noteq> x \<Longrightarrow>
   replaceAround x r (ws @ c # u) = ws @ c # replaceAround x r u"
  by (induction ws) (simp_all add: dropWhile_all_space)

lemma replaceAround_trail: "list_all is_space tr \<Longrightarrow> replaceAround x r tr = tr"
proof (induction tr)
  case Nil
  then show ?case by simp
next
  case (Cons a tr)
  then have "list_all is_space (a # tr)" by simp
  then have "dropWhile is_space (a # tr) = []" by (rule dropWhile_spaces)
  then have "replaceAround x r (a # tr) = a # replaceAround x r tr"
    by (simp only: replaceAround.simps list.case)
  with Cons show ?case by simp
qed

lemma h_around_eq: "h_around x pl pr p ws x = (if p = Some x then pr else []) @ pl"
  by (simp add: h_around_def)

lemma h_around_neq: "c \<noteq> x \<Longrightarrow> h_around x pl pr p ws c = (if p = Some x then pr else ws)"
  by (simp add: h_around_def)

lemma replaceAround_unchunk:
  assumes x: "\<not> is_space x" and tr: "list_all is_space tr"
  shows "wf_chunks cs \<Longrightarrow>
    (p \<noteq> Some x \<longrightarrow>
       replaceAround x (pl @ x # pr) (unchunk cs tr) =
         unchunk (mapPrev (h_around x pl pr) p cs) (t_around x pr (lastc p cs) tr)) \<and>
    (pr @ replaceAround x (pl @ x # pr) (dropWhile is_space (unchunk cs tr)) =
         unchunk (mapPrev (h_around x pl pr) (Some x) cs) (t_around x pr (lastc (Some x) cs) tr))"
proof (induction cs arbitrary: p)
  case Nil
  from tr show ?case by (simp add: replaceAround_trail t_around_def dropWhile_spaces)
next
  case (Cons k cs)
  obtain ws c where k: "k = (ws, c)" by (cases k)
  from Cons.prems k have wf: "list_all is_space ws" "\<not> is_space c" "wf_chunks cs" by simp_all
  have dw: "dropWhile is_space (unchunk (k # cs) tr) = c # unchunk cs tr"
    using wf k by (simp add: dropWhile_all_space)
  show ?case
  proof (cases "c = x")
    case True
    have ih: "pr @ replaceAround x (pl @ x # pr) (dropWhile is_space (unchunk cs tr)) =
         unchunk (mapPrev (h_around x pl pr) (Some x) cs) (t_around x pr (lastc (Some x) cs) tr)"
      using Cons.IH[OF wf(3)] by blast
    have m1: "replaceAround x (pl @ x # pr) (ws @ x # unchunk cs tr) =
              (pl @ x # pr) @ replaceAround x (pl @ x # pr) (dropWhile is_space (unchunk cs tr))"
      using wf(1) x by (rule replaceAround_match)
    have m2: "replaceAround x (pl @ x # pr) ([] @ x # unchunk cs tr) =
              (pl @ x # pr) @ replaceAround x (pl @ x # pr) (dropWhile is_space (unchunk cs tr))"
      using x by (intro replaceAround_match) simp_all
    show ?thesis
      using True k ih m1 m2 dw by (simp add: h_around_eq)
  next
    case False
    have ih: "replaceAround x (pl @ x # pr) (unchunk cs tr) =
         unchunk (mapPrev (h_around x pl pr) (Some c) cs) (t_around x pr (lastc (Some c) cs) tr)"
      using Cons.IH[OF wf(3), of "Some c"] False by simp
    have c1: "replaceAround x (pl @ x # pr) (ws @ c # unchunk cs tr) =
              ws @ c # replaceAround x (pl @ x # pr) (unchunk cs tr)"
      using wf(1,2) False by (rule replaceAround_copy)
    have c2: "replaceAround x (pl @ x # pr) ([] @ c # unchunk cs tr) =
              [] @ c # replaceAround x (pl @ x # pr) (unchunk cs tr)"
      using wf(2) False by (intro replaceAround_copy) simp_all
    show ?thesis
      using False k ih c1 c2 dw by (simp add: h_around_neq)
  qed
qed

lemma replaceAround_chunks:
  "\<not> is_space x \<Longrightarrow> list_all is_space tr \<Longrightarrow> wf_chunks cs \<Longrightarrow>
   replaceAround x (pl @ x # pr) (unchunk cs tr) =
     unchunk (mapPrev (h_around x pl pr) None cs) (t_around x pr (lastc None cs) tr)"
  using replaceAround_unchunk[of x tr cs None pl pr] by simp

lemma mapPrev_mapPrev:
  "mapPrev h2 p (mapPrev h1 p cs) = mapPrev (\<lambda>p ws c. h2 p (h1 p ws c) c) p cs"
  by (induction cs arbitrary: p) auto

lemma lastc_mapPrev: "lastc p (mapPrev h p cs) = lastc p cs"
  by (induction cs arbitrary: p) auto

lemma wf_mapPrev:
  "wf_chunks cs \<Longrightarrow> (\<And>p ws c. list_all is_space ws \<Longrightarrow> list_all is_space (h p ws c)) \<Longrightarrow>
   wf_chunks (mapPrev h p cs)"
  by (induction cs arbitrary: p) auto

lemma space_facts:
  "is_space CHR '' ''" "\<not> is_space CHR ''>''" "\<not> is_space CHR '',''"
  by (simp_all add: is_space_def)

lemma h_around_space:
  "list_all is_space pl \<Longrightarrow> list_all is_space pr \<Longrightarrow> list_all is_space ws \<Longrightarrow>
   list_all is_space (h_around x pl pr p ws c)"
  by (simp add: h_around_def)

lemma normalizeSelector_unchunk:
  assumes "wf_chunks cs" "list_all is_space tr"
  shows "normalizeSelector (unchunk cs tr) = unchunk (mapPrev h_norm None cs) (t_norm (lastc None cs))"
proof -
  let ?hT = "\<lambda>(p :: char option) (ws :: string) (c :: char). if p = None then [] else ws"
  let ?hZ = "\<lambda>(p :: char option) (ws :: string) (c :: char). squeeze ws"
  let ?c1 = "mapPrev ?hT None cs"
  let ?c2 = "mapPrev ?hZ None ?c1"
  let ?c3 = "mapPrev (h_around CHR ''>'' '' '' '' '') None ?c2"
  have w1: "wf_chunks ?c1" using assms(1) by (rule wf_mapPrev) simp
  have w2: "wf_chunks ?c2" using w1 by (rule wf_mapPrev) (simp add: squeeze_def space_facts)
  have w3: "wf_chunks ?c3" using w2 by (rule wf_mapPrev) (simp add: h_around_space space_facts)
  have s1: "trim (unchunk cs tr) = unchunk ?c1 []" using assms by (rule trim_unchunk)
  have s2: "replaceSpaces (unchunk ?c1 []) = unchunk ?c2 []"
    using replaceSpaces_unchunk[OF w1, of "[]" None] by (simp add: squeeze_def)
  have s3: "replaceAround CHR ''>'' ('' '' @ CHR ''>'' # '' '') (unchunk ?c2 []) =
            unchunk ?c3 (t_around CHR ''>'' '' '' (lastc None ?c2) [])"
    by (rule replaceAround_chunks) (simp_all add: space_facts w2)
  have t3: "list_all is_space (t_around CHR ''>'' '' '' (lastc None ?c2) [])"
    by (simp add: t_around_def space_facts)
  have s4: "replaceAround CHR '','' ([] @ CHR '','' # '' '')
              (unchunk ?c3 (t_around CHR ''>'' '' '' (lastc None ?c2) [])) =
            unchunk (mapPrev (h_around CHR '','' [] '' '') None ?c3)
              (t_around CHR '','' '' '' (lastc None ?c3) (t_around CHR ''>'' '' '' (lastc None ?c2) []))"
    using space_facts(3) t3 w3 by (rule replaceAround_chunks)
  have l: "lastc None ?c3 = lastc None cs" "lastc None ?c2 = lastc None cs"
    by (simp_all add: lastc_mapPrev)
  have m: "mapPrev (h_around CHR '','' [] '' '') None ?c3 = mapPrev h_norm None cs"
    by (simp add: mapPrev_mapPrev h_norm_def[abs_def])
  show ?thesis
    unfolding normalizeSelector_def s1 s2
    using s3 s4 by (simp add: l m t_norm_def)
qed

lemma h_norm_idem: "h_norm p (h_norm p ws c) c = h_norm p ws c"
  by (simp add: h_norm_def h_around_def squeeze_def)

lemma h_norm_space: "list_all is_space (h_norm p ws c)"
  by (simp add: h_norm_def h_around_def squeeze_def space_facts)

lemma t_norm_space: "list_all is_space (t_norm p)"
  by (simp add: t_norm_def t_around_def space_facts)


text \<open>
  Claim C8.  Selector normalisation is idempotent: normalising a normalised selector changes
  nothing, for every selector string.
\<close>

theorem normalizeSelector_idempotent:
  "normalizeSelector (normalizeSelector s) = normalizeSelector s"
proof -
  obtain cs tr where d: "wf_chunks cs" "list_all is_space tr" "s = unchunk cs tr"
    using chunks_exist by blast
  let ?cs' = "mapPrev h_norm None cs"
  have n1: "normalizeSelector s = unchunk ?cs' (t_norm (lastc None cs))"
    using d by (simp add: normalizeSelector_unchunk)
  have w: "wf_chunks ?cs'" using d(1) by (rule wf_mapPrev) (rule h_norm_space)
  have "normalizeSelector (unchunk ?cs' (t_norm (lastc None cs))) =
        unchunk (mapPrev h_norm None ?cs') (t_norm (lastc None ?cs'))"
    using w t_norm_space by (rule normalizeSelector_unchunk)
  also have "mapPrev h_norm None ?cs' = ?cs'"
    by (simp add: mapPrev_mapPrev h_norm_idem)
  also have "lastc None ?cs' = lastc None cs" by (rule lastc_mapPrev)
  finally show ?thesis using n1 by simp
qed

section \<open>The mutation engine\<close>

lemma setDeclarations_Some:
  "setDeclarations p (Some v) b = Some (p \<in> fst ` set (declarationsOf b), replaceValues p v b)"
  by (induction p "Some v" b rule: setDeclarations.induct) (auto simp: image_Un)

lemma replaceValues_absent:
  "p \<notin> fst ` set (declarationsOf b) \<Longrightarrow> replaceValues p v b = b"
  by (induction p v b rule: replaceValues.induct) (auto simp: image_Un)

lemma enterRule_Some:
  "parse_value lib (css_value change) = Some v \<Longrightarrow>
   enterRule lib change pre b =
     Some (matchesSelector lib change pre,
           if matchesSelector lib change pre then enteredBlock (property change) v b else b)"
  by (simp add: enterRule_def matchesSelector_def enteredBlock_def setDeclarations_Some
        replaceValues_absent)

lemma enterRule_no_match:
  "\<not> matchesSelector lib change pre \<Longrightarrow> enterRule lib change pre b = Some (False, b)"
  by (simp add: enterRule_def matchesSelector_def)

lemma preludes_append: "preludes (xs @ ys) = preludes xs @ preludes ys"
  by (induction xs rule: preludes.induct) auto

lemma preludes_replaceValues: "preludes (replaceValues p v b) = preludes b"
  by (induction p v b rule: replaceValues.induct) auto

lemma preludes_enteredBlock: "preludes (enteredBlock p v b) = preludes b"
  by (simp add: enteredBlock_def preludes_append preludes_replaceValues)

lemma walkRules_no_match:
  "\<forall>pre \<in> set (preludes ns). \<not> matchesSelector lib change pre \<Longrightarrow>
   walkRules lib change ns = Some (False, ns)"
proof (induction lib change ns rule: walkRules.induct)
  case (2 lib change pre b ns)
  have e: "enterRule lib change pre b = Some (False, b)"
    using 2(3) by (simp add: enterRule_no_match)
  have "walkRules lib change b = Some (False, b)"
    using 2(1)[OF e refl] 2(3) by simp
  moreover have "walkRules lib change ns = Some (False, ns)"
    using 2(2)[OF e refl] 2(3) by simp
  ultimately show ?case using e by simp
qed auto

lemma walkRules_walked:
  "parse_value lib (css_value change) = Some v \<Longrightarrow>
   walkRules lib change ns =
     Some (\<exists>pre \<in> set (preludes ns). matchesSelector lib change pre, walkedTree lib change v ns)"
proof (induction lib change ns rule: walkRules.induct)
  case (2 lib change pre b ns)
  let ?b1 = "if matchesSelector lib change pre then enteredBlock (property change) v b else b"
  have e: "enterRule lib change pre b = Some (matchesSelector lib change pre, ?b1)"
    using 2(3) by (rule enterRule_Some)
  have p: "preludes ?b1 = preludes b" by (simp add: preludes_enteredBlock)
  have "walkRules lib change ?b1 =
          Some (\<exists>pre \<in> set (preludes ?b1). matchesSelector lib change pre, walkedTree lib change v ?b1)"
    using 2(1)[OF e refl 2(3)] .
  moreover have "walkRules lib change ns =
          Some (\<exists>pre \<in> set (preludes ns). matchesSelector lib change pre, walkedTree lib change v ns)"
    using 2(2)[OF e refl 2(3)] .
  ultimately show ?case using e p by (simp del: walkRules.simps add: walkRules.simps(2)) blast
qed auto

lemma modifyCssContent_walked:
  assumes "parse lib css = Some ast"
    and "parse_value lib (css_value change) = Some v"
  shows "modifyCssContent lib css change =
           (if \<exists>pre \<in> set (preludes ast). matchesSelector lib change pre
            then Some (True, generate lib (walkedTree lib change v ast))
            else Some (False, css))"
  using assms by (simp add: modifyCssContent_def walkRules_walked)

text \<open>
  When the value of the change does not parse, the callback throws at the first rule whose
  selector matches, and the walk with it.
\<close>

lemma setDeclarations_None:
  "setDeclarations p None b = Some (f, b') \<Longrightarrow> \<not> f"
  by (induction p "None :: 'a option" b arbitrary: f b' rule: setDeclarations.induct)
     (auto split: option.splits if_splits)

lemma enterRule_throws:
  assumes "parse_value lib (css_value change) = None" and "matchesSelector lib change pre"
  shows "enterRule lib change pre b = None"
proof (cases "setDeclarations (property change) None b")
  case None
  with assms show ?thesis by (simp add: enterRule_def matchesSelector_def)
next
  case (Some fb)
  obtain f b' where fb: "fb = (f, b')" by (cases fb)
  with Some have "\<not> f" using setDeclarations_None by blast
  with assms Some fb show ?thesis by (simp add: enterRule_def matchesSelector_def)
qed

lemma walkRules_throws:
  "parse_value lib (css_value change) = None \<Longrightarrow>
   \<exists>pre \<in> set (preludes ns). matchesSelector lib change pre \<Longrightarrow>
   walkRules lib change ns = None"
proof (induction lib change ns rule: walkRules.induct)
  case (2 lib change pre b ns)
  show ?case
  proof (cases "matchesSelector lib change pre")
    case True
    with 2(3) show ?thesis by (simp add: enterRule_throws)
  next
    case False
    then have e: "enterRule lib change pre b = Some (False, b)" by (rule enterRule_no_match)
    from False 2(4) consider "\<exists>pre \<in> set (preludes b). matchesSelector lib change pre"
      | "\<exists>pre \<in> set (preludes ns). matchesSelector lib change pre" by auto
    then show ?thesis
    proof cases
      case 1
      with 2(1)[OF e refl 2(3)] e show ?thesis by simp
    next
      case 2
      with \<open>\<lbrakk>enterRule lib change pre b = Some (False, b); (False, b) = (False, b);
              parse_value lib (css_value change) = None;
              \<exists>pre \<in> set (preludes ns). matchesSelector lib change pre\<rbrakk>
             \<Longrightarrow> walkRules lib change ns = None\<close> e \<open>parse_value lib (css_value change) = None\<close>
      have "walkRules lib change ns = None" by blast
      with e show ?thesis by (simp split: option.splits prod.splits)
    qed
  qed
next
  case (3 lib change x b ns)
  from 3(4) consider "\<exists>pre \<in> set (preludes b). matchesSelector lib change pre"
    | "\<exists>pre \<in> set (preludes ns). matchesSelector lib change pre" by auto
  then show ?case
  proof cases
    case 1
    with 3(1)[OF 3(3)] show ?thesis by simp
  next
    case 2
    with 3(2)[OF 3(3)] show ?thesis by (simp split: option.splits prod.splits)
  qed
qed (auto split: option.splits)

subsection \<open>The walk and the update of the specification\<close>

lemma declarationsOf_split:
  "fst ` set (declarationsOf b) =
     {p. list_ex (declares p) b} \<union> fst ` set (nestedDeclarations b)"
proof (induction b)
  case Nil
  show ?case by simp
next
  case (Cons n b)
  then show ?case by (cases n) (auto simp: image_Un)
qed

lemma replaceValues_direct:
  "p \<notin> fst ` set (nestedDeclarations b) \<Longrightarrow> replaceValues p v b = map (replaceValue p v) b"
proof (induction b)
  case Nil
  show ?case by simp
next
  case (Cons n b)
  then show ?case by (cases n) (auto simp: image_Un replaceValues_absent)
qed

lemma enteredBlock_direct:
  "p \<notin> fst ` set (nestedDeclarations b) \<Longrightarrow> enteredBlock p v b = updateBlock p v b"
  using declarationsOf_split[of b]
  by (auto simp: enteredBlock_def updateBlock_def replaceValues_direct)

lemma walkedTree_append:
  "walkedTree lib change v (xs @ ys) = walkedTree lib change v xs @ walkedTree lib change v ys"
proof (induction xs)
  case Nil
  show ?case by simp
next
  case (Cons n xs)
  then show ?case by (cases n) simp_all
qed

lemma walkedTree_replaceValue:
  "walkedTree lib change v (map (replaceValue p u) b) =
     map (replaceValue p u) (walkedTree lib change v b)"
proof (induction b)
  case Nil
  show ?case by simp
next
  case (Cons n b)
  then show ?case by (cases n) simp_all
qed

lemma walkedTree_declares:
  "list_ex (declares p) (walkedTree lib change v b) = list_ex (declares p) b"
proof (induction b)
  case Nil
  show ?case by simp
next
  case (Cons n b)
  then show ?case by (cases n) simp_all
qed

lemma walkedTree_updateBlock:
  "walkedTree lib change v (updateBlock p u b) = updateBlock p u (walkedTree lib change v b)"
  by (simp add: updateBlock_def walkedTree_append walkedTree_replaceValue walkedTree_declares)

lemma walkedTree_shallow:
  "shallow lib change ns \<Longrightarrow> walkedTree lib change v ns = specMutate lib change v ns"
proof (induction lib change v ns rule: specMutate.induct)
  case (2 lib change v pre b ns)
  from 2 have ns: "walkedTree lib change v ns = specMutate lib change v ns" by simp
  show ?case
  proof (cases "matchesSelector lib change pre")
    case True
    with 2 have b: "walkedTree lib change v b = specMutate lib change v b" by simp
    from True 2 have "enteredBlock (property change) v b = updateBlock (property change) v b"
      by (simp add: enteredBlock_direct)
    with True b ns show ?thesis by (simp add: walkedTree_updateBlock)
  next
    case False
    with 2 have b: "walkedTree lib change v b = specMutate lib change v b" by simp
    with False ns show ?thesis by simp
  qed
qed simp_all

subsection \<open>Fragments without a matching rule\<close>

text \<open>
  Claim C5.  When the fragment parses and no rule of the tree has a selector that is, after
  normalisation, the selector of the change, the engine reports that nothing was modified and
  returns the fragment as it was given.
\<close>

theorem modifyCssContent_no_match:
  assumes "parse lib css = Some ast"
    and "\<forall>pre \<in> set (preludes ast). \<not> matchesSelector lib change pre"
  shows "modifyCssContent lib css change = Some (False, css)"
  using assms by (simp add: modifyCssContent_def walkRules_no_match)

theorem modifyCssContent_no_match_witness:
  "parse demoLib (demoGenerate demoSheet) = Some demoSheet
   \<and> map (matchesSelector demoLib \<lparr>selector = ''h2'', property = ''color'', css_value = ''red''\<rparr>)
         (preludes demoSheet) = [False, False, False]
   \<and> modifyCssContent demoLib (demoGenerate demoSheet)
         \<lparr>selector = ''h2'', property = ''color'', css_value = ''red''\<rparr>
       = Some (False, ''h1{color:blue;}@media print{h1{margin:0;}}p{color:blue;}'')"
proof -
  let ?ch = "\<lparr>selector = ''h2'', property = ''color'', css_value = ''red''\<rparr>"
  have p: "parse demoLib (demoGenerate demoSheet) = Some demoSheet"
    by code_simp
  have n: "\<forall>pre \<in> set (preludes demoSheet). \<not> matchesSelector demoLib ?ch pre"
    by code_simp
  have g: "demoGenerate demoSheet = ''h1{color:blue;}@media print{h1{margin:0;}}p{color:blue;}''"
    by code_simp
  have n': "map (matchesSelector demoLib ?ch) (preludes demoSheet) = [False, False, False]"
    by code_simp
  show ?thesis
    using modifyCssContent_no_match[OF p n] p n' g by simp
qed

subsection \<open>Fragments with matching rules\<close>

text \<open>
  Claim C3, refuted as stated, at two inputs.  In the fragment \<^verbatim>\<open>.a>.b{color:blue;}\<close> the rule
  has the selector of the change \<^verbatim>\<open>.a > .b {color: red !important}\<close> after normalisation;
  the value does not parse, the text patcher takes over, and the rule is left as it was.  In the
  fragment \<^verbatim>\<open>.a{&:hover{margin:5px;}}\<close> the block of the rule \<^verbatim>\<open>.a\<close> has no declaration of
  \<^verbatim>\<open>margin\<close>; for the change \<^verbatim>\<open>.a {margin: 0}\<close> nothing is appended to it, and the declaration
  of the nested rule, whose selector is another one, takes the value.
\<close>

theorem modifyCssContent_not_every_match:
  "parse demoLib ''.a>.b{color:blue;}'' = Some [Rule ''.a>.b'' [Declaration ''color'' ''blue'' False]]
   \<and> matchesSelector demoLib childImportant ''.a>.b''
   \<and> modifyCssContent demoLib ''.a>.b{color:blue;}'' childImportant
       = Some (False, ''.a>.b{color:blue;}'')
   \<and> parse demoLib ''.a{&:hover{margin:5px;}}''
       = Some [Rule ''.a'' [Rule ''&:hover'' [Declaration ''margin'' ''5px'' False]]]
   \<and> parse_value demoLib (css_value marginZero) = Some ''0''
   \<and> matchesSelector demoLib marginZero ''.a''
   \<and> \<not> matchesSelector demoLib marginZero ''&:hover''
   \<and> modifyCssContent demoLib ''.a{&:hover{margin:5px;}}'' marginZero
       = Some (True, ''.a{&:hover{margin:0;}}'')
   \<and> generate demoLib
         (specMutate demoLib marginZero ''0''
            [Rule ''.a'' [Rule ''&:hover'' [Declaration ''margin'' ''5px'' False]]])
       = ''.a{&:hover{margin:5px;}margin:0;}''"
  by code_simp

text \<open>
  Claim C3, amended.  When the fragment and the value of the change parse, and no rule whose
  selector matches has a declaration of the property inside a rule or at-rule nested in its
  block, the engine returns the generated text of the tree in which every rule whose normalised
  selector is that of the change has been updated: the declarations of the property in its
  block take the parsed value, or, when the block has none, a declaration of the property with
  the parsed value is appended at the end of the block.  This holds for every such rule of the
  tree, not only the first; when there is no such rule the fragment is returned unmodified.
\<close>

theorem modifyCssContent_updates_every_match:
  assumes "parse lib css = Some ast"
    and "parse_value lib (css_value change) = Some v"
    and "shallow lib change ast"
  shows "modifyCssContent lib css change =
           (if \<exists>pre \<in> set (preludes ast). matchesSelector lib change pre
            then Some (True, generate lib (specMutate lib change v ast))
            else Some (False, css))"
  using assms by (simp add: modifyCssContent_walked walkedTree_shallow)

theorem modifyCssContent_updates_every_match_witness:
  "parse demoLib (demoGenerate demoSheet) = Some demoSheet
   \<and> parse_value demoLib ''red'' = Some ''red''
   \<and> shallow demoLib \<lparr>selector = '' h1 '', property = ''color'', css_value = ''red''\<rparr> demoSheet
   \<and> specMutate demoLib \<lparr>selector = '' h1 '', property = ''color'', css_value = ''red''\<rparr>
         ''red'' demoSheet
       = [Rule ''h1'' [Declaration ''color'' ''red'' False],
          Atrule ''@media print''
            [Rule ''h1'' [Declaration ''margin'' ''0'' False, Declaration ''color'' ''red'' False]],
          Rule ''p'' [Declaration ''color'' ''blue'' False]]
   \<and> modifyCssContent demoLib (demoGenerate demoSheet)
         \<lparr>selector = '' h1 '', property = ''color'', css_value = ''red''\<rparr>
       = Some (True, ''h1{color:red;}@media print{h1{margin:0;color:red;}}p{color:blue;}'')"
proof -
  let ?ch = "\<lparr>selector = '' h1 '', property = ''color'', css_value = ''red''\<rparr>"
  have p: "parse demoLib (demoGenerate demoSheet) = Some demoSheet"
    by code_simp
  have v: "parse_value demoLib (css_value ?ch) = Some ''red''"
    by code_simp
  have sh: "shallow demoLib ?ch demoSheet"
    by code_simp
  have m: "\<exists>pre \<in> set (preludes demoSheet). matchesSelector demoLib ?ch pre"
    by code_simp
  have t: "specMutate demoLib ?ch ''red'' demoSheet
       = [Rule ''h1'' [Declaration ''color'' ''red'' False],
          Atrule ''@media print''
            [Rule ''h1'' [Declaration ''margin'' ''0'' False, Declaration ''color'' ''red'' False]],
          Rule ''p'' [Declaration ''color'' ''blue'' False]]"
    by code_simp
  have g: "generate demoLib (specMutate demoLib ?ch ''red'' demoSheet) =
             ''h1{color:red;}@media print{h1{margin:0;color:red;}}p{color:blue;}''"
    by code_simp
  have v': "parse_value demoLib ''red'' = Some ''red''" by code_simp
  show ?thesis
    using modifyCssContent_updates_every_match[OF p v sh] p v' sh t m g by simp
qed

section \<open>The application engine\<close>

subsection \<open>The call has a result\<close>

lemma regexCallback_plain:
  "constructs lib (property change) \<Longrightarrow> regexCallback lib change pre \<noteq> None"
  by (auto simp: regexCallback_def propertyRegex_def constructs_def split: option.splits)

lemma replaceBlocks_plain:
  "constructs lib (property change) \<Longrightarrow> replaceBlocks lib change s \<noteq> None"
proof (induction lib change s rule: replaceBlocks.induct)
  case (1 lib change)
  show ?case by simp
next
  case (2 lib change c cs)
  show ?case
  proof (cases "selectorBlockAt (selector change) (c # cs)")
    case None
    with 2 show ?thesis by (auto split: option.splits)
  next
    case (Some pre)
    with 2 regexCallback_plain[of lib change pre] show ?thesis
      by (auto split: option.splits)
  qed
qed

lemma modifyCssContent_plain:
  assumes "constructs lib (property change)"
  shows "modifyCssContent lib css change \<noteq> None"
proof -
  have r: "applyWithRegex lib css change \<noteq> None"
    using assms by (simp add: applyWithRegex_def replaceBlocks_plain)
  show ?thesis
  proof (cases "parse lib css")
    case None
    with r show ?thesis by (simp add: modifyCssContent_def)
  next
    case (Some ast)
    with r show ?thesis
      by (cases "walkRules lib change ast") (auto simp: modifyCssContent_def)
  qed
qed

lemma replaceStyles_plain:
  "constructs lib (property change) \<Longrightarrow> replaceStyles lib change s \<noteq> None"
proof (induction lib change s rule: replaceStyles.induct)
  case (1 lib change)
  show ?case by simp
next
  case (2 lib change c cs)
  show ?case
  proof (cases "styleAt (c # cs)")
    case None
    with 2 show ?thesis by (auto split: option.splits)
  next
    case (Some mc)
    obtain m css where mc: "mc = (m, css)" by (cases mc)
    from 2(2)[OF Some mc[symmetric]] 2(3)
    obtain found out where
      r: "replaceStyles lib change (drop (length m - 1) cs) = Some (found, out)" by auto
    from modifyCssContent_plain[OF 2(3), of css] obtain modified body where
      c: "modifyCssContent lib css change = Some (modified, body)" by auto
    from Some mc r c show ?thesis by (cases modified) simp_all
  qed
qed

lemma writeFileSync_Some:
  "writeFileSync pth w p body = Some w' \<Longrightarrow>
   writes w' = writes w @ [(p, body)] \<and> files w' = (files w)(resolve pth p \<mapsto> File body)"
  by (auto simp: writeFileSync_def split: option.splits entry.splits)

lemma writeFileSync_file:
  "files w (resolve pth p) \<noteq> Some Directory \<Longrightarrow> writeFileSync pth w p body \<noteq> None"
  by (auto simp: writeFileSync_def split: option.splits entry.splits)

lemma readFileSync_file:
  "readFileSync pth w p = Some body \<longleftrightarrow> files w (resolve pth p) = Some (File body)"
  by (auto simp: readFileSync_def split: option.splits entry.splits)

lemma applyToCssFile_effect:
  "applyToCssFile lib pth w cssPath change = Some (found, w') \<Longrightarrow>
   (if found then \<exists>body. writeFileSync pth w cssPath body = Some w' else w' = w)"
  by (auto simp: applyToCssFile_def split: if_splits option.splits)



subsection \<open>The calls of \<open>writeFileSync\<close>\<close>

lemma applyToLinked_effect:
  "applyToLinked lib pth w change linked = Some (r, w') \<Longrightarrow>
   (case r of None \<Rightarrow> w' = w
    | Some cssFile \<Rightarrow> cssFile \<in> set linked \<and> (\<exists>body. writeFileSync pth w cssFile body = Some w'))"
proof (induction linked)
  case Nil
  then show ?case by simp
next
  case (Cons f linked)
  from Cons.prems obtain found w1 where
    a: "applyToCssFile lib pth w f change = Some (found, w1)"
    by (auto split: option.splits)
  show ?case
  proof (cases found)
    case True
    with a Cons.prems applyToCssFile_effect[OF a] show ?thesis by auto
  next
    case False
    with a applyToCssFile_effect[OF a] have "w1 = w" by simp
    with a False Cons.prems have "applyToLinked lib pth w change linked = Some (r, w')" by simp
    from Cons.IH[OF this] show ?thesis by (auto split: option.splits)
  qed
qed



subsection \<open>The embedded style blocks of a document\<close>

lemma prefixBy_iff:
  "prefixBy eq p s \<longleftrightarrow> length p \<le> length s \<and> list_all2 eq p (take (length p) s)"
  by (induction eq p s rule: prefixBy.induct) auto

lemma findBy_parts:
  "findBy eq p s = Some (pre, post) \<Longrightarrow>
   \<exists>mid. s = pre @ mid @ post \<and> length mid = length p"
proof (induction s arbitrary: pre)
  case Nil
  then show ?case by (simp split: if_splits)
next
  case (Cons c cs)
  show ?case
  proof (cases "prefixBy eq p (c # cs)")
    case True
    with Cons.prems have pre: "pre = []" and post: "post = drop (length p) (c # cs)" by simp_all
    from True have "length p \<le> length (c # cs)" by (simp add: prefixBy_iff)
    then have "c # cs = pre @ take (length p) (c # cs) @ post
               \<and> length (take (length p) (c # cs)) = length p"
      using pre post by simp
    then show ?thesis by blast
  next
    case False
    with Cons.prems obtain pre' where f: "findBy eq p cs = Some (pre', post)" and p: "pre = c # pre'"
      by (auto split: option.splits)
    from Cons.IH[OF f] obtain mid where "cs = pre' @ mid @ post" "length mid = length p" by blast
    with p have "c # cs = pre @ mid @ post \<and> length mid = length p" by simp
    then show ?thesis by blast
  qed
qed

lemma styleAt_parts:
  assumes "styleAt s = Some (m, css)"
  shows "m = openingTag m css @ css @ closingTag m \<and> s = m @ drop (length m) s \<and> m \<noteq> []"
proof -
  from assms have p: "prefixBy ci_eq ''<style'' s"
    by (auto simp: styleAt_def split: if_splits)
  then have l6: "6 \<le> length s" by (simp add: prefixBy_iff)
  from assms p obtain g r where g: "dropWhile (\<lambda>c. c \<noteq> CHR ''>'') (drop 6 s) = g # r"
    by (auto simp: styleAt_def split: if_splits list.splits)
  from assms p g obtain post where f: "findBy ci_eq ''</style>'' r = Some (css, post)"
    and m: "m = take (length s - length post) s"
    by (auto simp: styleAt_def split: if_splits option.splits)
  from findBy_parts[OF f] obtain mid where r: "r = css @ mid @ post" and mid: "length mid = 8"
    by auto
  define H where "H = take 6 s @ takeWhile (\<lambda>c. c \<noteq> CHR ''>'') (drop 6 s) @ [g]"
  have "drop 6 s = takeWhile (\<lambda>c. c \<noteq> CHR ''>'') (drop 6 s) @ g # r"
    using takeWhile_dropWhile_id[of "\<lambda>c. c \<noteq> CHR ''>''" "drop 6 s"] g by simp
  then have "s = take 6 s @ takeWhile (\<lambda>c. c \<noteq> CHR ''>'') (drop 6 s) @ g # r"
    using append_take_drop_id[of 6 s] by simp
  then have s: "s = (H @ css @ mid) @ post"
    by (simp add: H_def r)
  have "length s - length post = length (H @ css @ mid)"
    by (subst s) simp
  then have "m = take (length (H @ css @ mid)) ((H @ css @ mid) @ post)"
    using m s by simp
  then have m': "m = H @ css @ mid" by simp
  have o: "openingTag m css = H"
    by (simp add: openingTag_def m' mid)
  have c: "closingTag m = mid"
    by (simp add: closingTag_def m' mid)
  have "H \<noteq> []" by (simp add: H_def)
  with m' o c s show ?thesis by simp
qed

lemma styleAt_rest:
  assumes "styleAt (c # cs) = Some (m, css)"
  shows "m @ drop (length m - 1) cs = c # cs"
proof -
  from styleAt_parts[OF assms] have s: "c # cs = m @ drop (length m) (c # cs)" and "m \<noteq> []"
    by simp_all
  then obtain k where "length m = Suc k" by (cases m) auto
  with s show ?thesis by simp
qed

lemma styleSegments_text: "concat (map segmentText (styleSegments s)) = s"
proof (induction s rule: styleSegments.induct)
  case 1
  show ?case by simp
next
  case (2 c cs)
  show ?case
  proof (cases "styleAt (c # cs)")
    case None
    with 2 show ?thesis by simp
  next
    case (Some mc)
    obtain m css where mc: "mc = (m, css)" by (cases mc)
    from 2(2)[OF Some mc[symmetric]] Some mc styleAt_rest[of c cs m css] show ?thesis by simp
  qed
qed

lemma styleSegments_parts:
  "Element m css \<in> set (styleSegments s) \<Longrightarrow> m = openingTag m css @ css @ closingTag m"
proof (induction s rule: styleSegments.induct)
  case 1
  then show ?case by simp
next
  case (2 c cs)
  show ?case
  proof (cases "styleAt (c # cs)")
    case None
    with 2 show ?thesis by simp
  next
    case (Some mc)
    obtain m' css' where mc: "mc = (m', css')" by (cases mc)
    note ih = 2(2)[OF Some mc[symmetric]]
    from 2(3) Some mc consider "m = m' \<and> css = css'"
      | "Element m css \<in> set (styleSegments (drop (length m' - 1) cs))" by auto
    then show ?thesis
    proof cases
      case 1
      with Some mc styleAt_parts[of "c # cs" m css] show ?thesis by simp
    next
      case 2
      with ih show ?thesis by simp
    qed
  qed
qed

lemma getSubstitution_plain:
  "CHR ''$'' \<notin> set r \<Longrightarrow> getSubstitution matched pre post r = r"
  by (induction matched pre post r rule: getSubstitution.induct) auto

lemma replaceStyles_segments:
  "replaceStyles lib change s = Some (found, out) \<Longrightarrow>
   list_all (safeSegment lib change) (styleSegments s) \<Longrightarrow>
   out = concat (map (specSegment lib change) (styleSegments s))"
proof (induction lib change s arbitrary: found out rule: replaceStyles.induct)
  case (1 lib change)
  then show ?case by simp
next
  case (2 lib change c cs)
  show ?case
  proof (cases "styleAt (c # cs)")
    case None
    with 2(3) obtain out' where r: "replaceStyles lib change cs = Some (found, out')"
      and o: "out = c # out'"
      by (auto split: option.splits)
    from None 2(4) have "list_all (safeSegment lib change) (styleSegments cs)" by simp
    from 2(1)[OF None r this] None o show ?thesis by simp
  next
    case (Some mc)
    obtain m css where mc: "mc = (m, css)" by (cases mc)
    from 2(3) Some mc obtain modified body found' out' where
      c: "modifyCssContent lib css change = Some (modified, body)" and
      r: "replaceStyles lib change (drop (length m - 1) cs) = Some (found', out')" and
      o: "out = (if modified then replaceString m css body else m) @ out'"
      by (auto split: option.splits if_splits)
    from 2(4) Some mc have safe: "safeSegment lib change (Element m css)"
      and rest: "list_all (safeSegment lib change) (styleSegments (drop (length m - 1) cs))"
      by simp_all
    from 2(2)[OF Some mc[symmetric] r rest]
    have ih: "out' = concat (map (specSegment lib change) (styleSegments (drop (length m - 1) cs)))" .
    have "(if modified then replaceString m css body else m) = specSegment lib change (Element m css)"
    proof (cases modified)
      case True
      with safe c have "findBy (=) css m = Some (openingTag m css, closingTag m)"
        and "CHR ''$'' \<notin> set body" by simp_all
      with True c show ?thesis by (simp add: replaceString_def getSubstitution_plain)
    next
      case False
      with c show ?thesis by simp
    qed
    with o ih Some mc show ?thesis by simp
  qed
qed

subsection \<open>The order of the strategies\<close>

lemma replaceStyles_found:
  "replaceStyles lib change s = Some (found, out) \<Longrightarrow>
   Element matched cssContent \<in> set (styleSegments s) \<Longrightarrow>
   modifyCssContent lib cssContent change = Some (True, body) \<Longrightarrow> found"
proof (induction lib change s arbitrary: found out rule: replaceStyles.induct)
  case (1 lib change)
  then show ?case by simp
next
  case (2 lib change c cs)
  show ?case
  proof (cases "styleAt (c # cs)")
    case None
    with 2(3) obtain out' where "replaceStyles lib change cs = Some (found, out')"
      by (auto split: option.splits)
    moreover from None 2(4) have "Element matched cssContent \<in> set (styleSegments cs)" by simp
    ultimately show ?thesis using 2(1)[OF None] 2(5) by blast
  next
    case (Some mc)
    obtain m css where mc: "mc = (m, css)" by (cases mc)
    from 2(3) Some mc obtain modified body' found' out' where
      c: "modifyCssContent lib css change = Some (modified, body')" and
      r: "replaceStyles lib change (drop (length m - 1) cs) = Some (found', out')" and
      f: "found = (modified \<or> found')"
      by (auto split: option.splits if_splits)
    note ih = 2(2)[OF Some mc[symmetric] r _ 2(5)]
    from 2(4) Some mc
    consider "cssContent = css"
      | "Element matched cssContent \<in> set (styleSegments (drop (length m - 1) cs))"
      by auto
    then show ?thesis
    proof cases
      case 1
      with c 2(5) f show ?thesis by simp
    next
      case 2
      with ih have found' .
      with f show ?thesis by simp
    qed
  qed
qed

text \<open>
  The callback of \<open>applyToInlineStyle\<close> puts the result in the place of the first occurrence of
  the content in the text of the block: here that is the \<^verbatim>\<open>title\<close> of the block, and the content
  of the block stays as it was.
\<close>

lemma applyToInlineStyle_first_occurrence:
  "applyToInlineStyle demoLib demoTitled h1red =
     Some (True, ''<style title='' @ [CHR 0x22] @ ''h1{color:red;}'' @ [CHR 0x22]
                   @ ''>h1{color:blue;}</style>'')"
  by code_simp

text \<open>
  Claim C1, refuted as stated.  The page \<^verbatim>\<open>cards.html\<close> has an embedded block with the rule
  \<^verbatim>\<open>.a>.b{color:blue;}\<close> and a link to \<^verbatim>\<open>child.css\<close> with the rule \<^verbatim>\<open>.a > .b{color:green;}\<close>;
  both rules have the selector of the change \<^verbatim>\<open>.a > .b {color: red !important}\<close> after
  normalisation.  The value does not parse, so the text patcher takes over in both places; it
  compares the selector literally, finds nothing in the embedded block and rewrites the linked
  sheet.  The one call of \<open>writeFileSync\<close> is for the linked sheet, which is also the file
  reported.
\<close>

theorem applyCssChange_linked_sheet_written:
  "readFileSync demoPath demoWorld (resolve demoPath ''cards.html'') = Some demoCards
   \<and> Element ''<style>.a>.b{color:blue;}</style>'' ''.a>.b{color:blue;}''
        \<in> set (styleSegments demoCards)
   \<and> parse demoLib ''.a>.b{color:blue;}''
       = Some [Rule ''.a>.b'' [Declaration ''color'' ''blue'' False]]
   \<and> findLinkedCssFiles demoPath demoCards (dirname demoPath ''/site/cards.html'')
       = [''/site/child.css'']
   \<and> readFileSync demoPath demoWorld ''/site/child.css'' = Some ''.a > .b{color:green;}''
   \<and> parse demoLib ''.a > .b{color:green;}''
       = Some [Rule ''.a>.b'' [Declaration ''color'' ''green'' False]]
   \<and> matchesSelector demoLib childImportant ''.a>.b''
   \<and> outcome (applyCssChange demoLib demoPath demoWorld ''cards.html'' childImportant)
       = Some (True, Some ''/site/child.css'',
               [(''/site/child.css'', ''.a > .b{color: red !important;}'')])"
  by code_simp

text \<open>
  Claim C1, amended.  Let the document have an embedded style block whose content parses to a
  tree with a rule for the selector of the change, and let the value of the change parse.
  Then \<open>applyCssChange\<close>, whatever the linked style sheets contain, succeeds through the
  embedded blocks: it reports the path of the document as the modified file, calls
  \<open>writeFileSync\<close> once, for the document, and leaves every other file as it was.  The text
  written is the result of \<open>applyToInlineStyle\<close>; when every block is a \<open>safeSegment\<close> it is the
  document in which the content of each block that the engine modifies is replaced by the
  result of the engine, and nothing else is changed.  The block of the hypothesis is one of
  those: its content becomes the generated text of the tree after the walk.
\<close>

theorem applyCssChange_inline_first:
  assumes doc: "readFileSync pth w (resolve pth htmlPath) = Some html"
    and block: "Element matched cssContent \<in> set (styleSegments html)"
    and ast: "parse lib cssContent = Some ast"
    and rule: "\<exists>pre \<in> set (preludes ast). matchesSelector lib change pre"
    and val: "parse_value lib (css_value change) = Some v"
  shows "(constructs lib (property change) \<longrightarrow> applyCssChange lib pth w htmlPath change \<noteq> None)
       \<and> (\<forall>r w'. applyCssChange lib pth w htmlPath change = Some (r, w') \<longrightarrow>
            success r \<and> modifiedFile r = Some (resolve pth htmlPath)
            \<and> (\<exists>body. applyToInlineStyle lib html change = Some (True, body)
                  \<and> writes w' = writes w @ [(resolve pth htmlPath, body)]
                  \<and> files w' = (files w)(resolve pth (resolve pth htmlPath) \<mapsto> File body)
                  \<and> (list_all (safeSegment lib change) (styleSegments html) \<longrightarrow>
                        body = concat (map (specSegment lib change) (styleSegments html)))))
       \<and> html = concat (map segmentText (styleSegments html))
       \<and> matched = openingTag matched cssContent @ cssContent @ closingTag matched
       \<and> specSegment lib change (Element matched cssContent)
           = openingTag matched cssContent @ generate lib (walkedTree lib change v ast)
               @ closingTag matched"
proof (intro conjI allI impI)
  have f: "files w (resolve pth (resolve pth htmlPath)) = Some (File html)"
    using doc by (simp add: readFileSync_file)
  have m: "modifyCssContent lib cssContent change =
             Some (True, generate lib (walkedTree lib change v ast))"
    using modifyCssContent_walked[OF ast val] rule by simp
  { assume plain: "constructs lib (property change)"
    from replaceStyles_plain[OF plain, of html] obtain found body where
      i: "applyToInlineStyle lib html change = Some (found, body)"
      by (auto simp: applyToInlineStyle_def)
    then have found
      using replaceStyles_found[OF _ block m] by (simp add: applyToInlineStyle_def)
    from f writeFileSync_file[of w pth "resolve pth htmlPath" body] obtain w2 where
      "writeFileSync pth w (resolve pth htmlPath) body = Some w2" by auto
    with f doc i \<open>found\<close> show "applyCssChange lib pth w htmlPath change \<noteq> None"
      by (simp add: applyCssChange_def Let_def existsSync_def) }
  show "html = concat (map segmentText (styleSegments html))"
    by (simp add: styleSegments_text)
  show "matched = openingTag matched cssContent @ cssContent @ closingTag matched"
    using block by (rule styleSegments_parts)
  show "specSegment lib change (Element matched cssContent)
           = openingTag matched cssContent @ generate lib (walkedTree lib change v ast)
               @ closingTag matched"
    using m by simp
  fix r w'
  assume a: "applyCssChange lib pth w htmlPath change = Some (r, w')"
  have ex: "existsSync pth w (resolve pth htmlPath)"
    using f by (simp add: existsSync_def)
  from a ex doc obtain found body where
    i: "applyToInlineStyle lib html change = Some (found, body)"
    by (auto simp: applyCssChange_def Let_def split: option.splits)
  then have "found"
    using replaceStyles_found[OF _ block m] by (simp add: applyToInlineStyle_def)
  with a ex doc i have r: "r = \<lparr>success = True,
        message = ''CSS aplicado en <style> de '' @ basename pth htmlPath,
        modifiedFile = Some (resolve pth htmlPath)\<rparr>"
    and w: "writeFileSync pth w (resolve pth htmlPath) body = Some w'"
    by (auto simp: applyCssChange_def Let_def split: option.splits)
  from r show "success r" by simp
  from r show "modifiedFile r = Some (resolve pth htmlPath)" by simp
  have seg: "list_all (safeSegment lib change) (styleSegments html) \<longrightarrow>
               body = concat (map (specSegment lib change) (styleSegments html))"
    using i replaceStyles_segments[of lib change html found body]
    by (simp add: applyToInlineStyle_def)
  from i \<open>found\<close> writeFileSync_Some[OF w] seg
  show "\<exists>body. applyToInlineStyle lib html change = Some (True, body)
          \<and> writes w' = writes w @ [(resolve pth htmlPath, body)]
          \<and> files w' = (files w)(resolve pth (resolve pth htmlPath) \<mapsto> File body)
          \<and> (list_all (safeSegment lib change) (styleSegments html) \<longrightarrow>
                body = concat (map (specSegment lib change) (styleSegments html)))"
    by auto
qed

theorem applyCssChange_inline_first_witness:
  "readFileSync demoPath demoWorld (resolve demoPath ''index.html'') = Some demoIndex
   \<and> Element (''<style>'' @ demoGenerate demoSheet @ ''</style>'') (demoGenerate demoSheet)
        \<in> set (styleSegments demoIndex)
   \<and> parse demoLib (demoGenerate demoSheet) = Some demoSheet
   \<and> matchesSelector demoLib h1red ''h1''
   \<and> parse_value demoLib (css_value h1red) = Some ''red''
   \<and> constructs demoLib (property h1red)
   \<and> list_all (safeSegment demoLib h1red) (styleSegments demoIndex)
   \<and> outcome (applyCssChange demoLib demoPath demoWorld ''index.html'' h1red)
      = Some (True, Some ''/site/index.html'',
          [(''/site/index.html'',
            ''<head><link rel='' @ [CHR 0x22] @ ''stylesheet'' @ [CHR 0x22] @ '' href=''
              @ [CHR 0x22] @ ''main.css'' @ [CHR 0x22]
              @ ''><style>h1{color:red;}@media print{h1{margin:0;color:red;}}p{color:blue;}</style></head>'')])
   \<and> map_option (\<lambda>(r, w'). files w' ''/site/main.css'')
        (applyCssChange demoLib demoPath demoWorld ''index.html'' h1red)
      = Some (Some (File ''h1{color:green;}''))"
proof -
  let ?m = "''<style>'' @ demoGenerate demoSheet @ ''</style>''"
  have doc: "readFileSync demoPath demoWorld (resolve demoPath ''index.html'') = Some demoIndex"
    by code_simp
  have block: "Element ?m (demoGenerate demoSheet) \<in> set (styleSegments demoIndex)"
    by code_simp
  have ast: "parse demoLib (demoGenerate demoSheet) = Some demoSheet"
    by code_simp
  have rule: "\<exists>pre \<in> set (preludes demoSheet). matchesSelector demoLib h1red pre"
    by code_simp
  have h1: "matchesSelector demoLib h1red ''h1''"
    by code_simp
  have val: "parse_value demoLib (css_value h1red) = Some ''red''"
    by code_simp
  have plain: "constructs demoLib (property h1red)"
    by code_simp
  have safe: "list_all (safeSegment demoLib h1red) (styleSegments demoIndex)"
    by code_simp
  have spec: "concat (map (specSegment demoLib h1red) (styleSegments demoIndex)) =
            ''<head><link rel='' @ [CHR 0x22] @ ''stylesheet'' @ [CHR 0x22] @ '' href=''
              @ [CHR 0x22] @ ''main.css'' @ [CHR 0x22]
              @ ''><style>h1{color:red;}@media print{h1{margin:0;color:red;}}p{color:blue;}</style></head>''"
    by code_simp
  have main: "files demoWorld ''/site/main.css'' = Some (File ''h1{color:green;}'')"
    by code_simp
  have other: "''/site/main.css'' \<noteq> resolve demoPath (resolve demoPath ''index.html'')"
    by code_simp
  note t = applyCssChange_inline_first[OF doc block ast rule val]
  from t plain obtain r w' where
    a: "applyCssChange demoLib demoPath demoWorld ''index.html'' h1red = Some (r, w')"
    by auto
  from t a safe obtain body where
    s: "success r" "modifiedFile r = Some (resolve demoPath ''index.html'')"
       "writes w' = writes demoWorld @ [(resolve demoPath ''index.html'', body)]"
       "files w' = (files demoWorld)(resolve demoPath (resolve demoPath ''index.html'') \<mapsto> File body)"
       "body = concat (map (specSegment demoLib h1red) (styleSegments demoIndex))"
    by blast
  have p: "resolve demoPath ''index.html'' = ''/site/index.html''" by code_simp
  have w0: "writes demoWorld = []" by code_simp
  from s spec p w0 have o: "outcome (Some (r, w')) = Some (True, Some ''/site/index.html'',
          [(''/site/index.html'',
            ''<head><link rel='' @ [CHR 0x22] @ ''stylesheet'' @ [CHR 0x22] @ '' href=''
              @ [CHR 0x22] @ ''main.css'' @ [CHR 0x22]
              @ ''><style>h1{color:red;}@media print{h1{margin:0;color:red;}}p{color:blue;}</style></head>'')])"
    by (simp add: outcome_def)
  from s other main have "files w' ''/site/main.css'' = Some (File ''h1{color:green;}'')"
    by simp
  with a o doc block ast h1 val plain safe show ?thesis by simp
qed



subsection \<open>The new style block\<close>

text \<open>
  When the embedded blocks and the linked files give nothing, the document is written with the
  new block; and when the change has no dollar sign, the block is inserted as it is, before the
  first \<^verbatim>\<open></head>\<close> or, without one, at the start of the document.
\<close>

lemma prefixBy_eq_append: "prefixBy (=) p s \<Longrightarrow> s = p @ drop (length p) s"
  by (induction "(=) :: char \<Rightarrow> char \<Rightarrow> bool" p s rule: prefixBy.induct) auto

lemma findBy_split: "findBy (=) p s = Some (pre, post) \<Longrightarrow> s = pre @ p @ post"
proof (induction s arbitrary: pre)
  case Nil
  then show ?case by (simp split: if_splits)
next
  case (Cons c cs)
  show ?case
  proof (cases "prefixBy (=) p (c # cs)")
    case True
    with Cons.prems prefixBy_eq_append[OF True] show ?thesis by simp
  next
    case False
    with Cons.prems obtain pre' where "findBy (=) p cs = Some (pre', post)" "pre = c # pre'"
      by (auto split: option.splits)
    with Cons.IH show ?thesis by simp
  qed
qed

lemma addStyleBlock_verbatim:
  assumes "CHR ''$'' \<notin> set (selector change @ property change @ css_value change)"
  shows "addStyleBlock html change =
           (case findBy (=) ''</head>'' html of
              None \<Rightarrow> newStyle change @ [CHR 0x0A] @ html
            | Some (pre, post) \<Rightarrow> pre @ newStyle change @ [CHR 0x0A] @ ''</head>'' @ post)"
proof -
  from assms have "CHR ''$'' \<notin> set (newStyle change @ [CHR 0x0A] @ ''</head>'')"
    by (simp add: newStyle_def)
  then have "getSubstitution ''</head>'' pre post (newStyle change @ [CHR 0x0A] @ ''</head>'')
               = newStyle change @ [CHR 0x0A] @ ''</head>''" for pre post
    by (rule getSubstitution_plain)
  then show ?thesis
    by (simp add: addStyleBlock_def includes_str_def replaceString_def split: option.splits)
qed

lemma applyCssChange_synthesize:
  assumes "readFileSync pth w (resolve pth htmlPath) = Some html"
    and "applyToInlineStyle lib html change = Some (False, body)"
    and "applyToLinked lib pth w change
           (findLinkedCssFiles pth html (dirname pth (resolve pth htmlPath))) = Some (None, w1)"
  shows "\<exists>r w'. applyCssChange lib pth w htmlPath change = Some (r, w')
             \<and> writeFileSync pth w (resolve pth htmlPath) (addStyleBlock html change) = Some w'
             \<and> success r \<and> modifiedFile r = Some (resolve pth htmlPath)"
proof -
  from applyToLinked_effect[OF assms(3)] have w1: "w1 = w" by simp
  from assms(1) have f: "files w (resolve pth (resolve pth htmlPath)) = Some (File html)"
    by (simp add: readFileSync_file)
  with writeFileSync_file[of w pth "resolve pth htmlPath" "addStyleBlock html change"]
  obtain w' where
    "writeFileSync pth w (resolve pth htmlPath) (addStyleBlock html change) = Some w'" by auto
  with assms w1 f show ?thesis
    by (simp add: applyCssChange_def Let_def existsSync_def)
qed

text \<open>
  Claim C4, at an input where the code departs from it.  The document is
  \<^verbatim>\<open><head></head><body></body>\<close> and the change is \<^verbatim>\<open>content: '$'\<close> for the selector
  \<^verbatim>\<open>.price::before\<close>.  No embedded block and no linked file has the selector, so the new
  style block is inserted before \<^verbatim>\<open></head>\<close> by \<^verbatim>\<open>html.replace('</head>', ...)\<close>, whose second
  argument is a replacement string: in it \<^verbatim>\<open>$'\<close> stands for the text after the match.  The
  document that is written has the declaration \<^verbatim>\<open>content: '<body></body>;\<close> in place of the
  requested one.
\<close>

theorem applyCssChange_new_block_dollar:
  "map_option (\<lambda>(r, w'). (success r, modifiedFile r, files w' ''/site/page.html''))
     (applyCssChange demoLib demoPath demoWorld ''page.html'' dollarSign)
   = Some (True, Some ''/site/page.html'',
       Some (File (''<head>'' @ [CHR 0x0A] @ ''<style>'' @ [CHR 0x0A]
             @ ''.price::before {'' @ [CHR 0x0A]
             @ ''  content: '' @ [CHR 0x27] @ ''<body></body>;'' @ [CHR 0x0A]
             @ ''}'' @ [CHR 0x0A] @ ''</style>'' @ [CHR 0x0A]
             @ ''</head><body></body>'')))"
  by code_simp

section \<open>The text patcher\<close>

lemma selectorBlockAt_shape:
  assumes "selectorBlockAt sel s = Some pre"
  shows "\<exists>ws body rest.
           s = pre @ CHR ''}'' # rest
           \<and> pre = take (length sel) s @ ws @ CHR ''{'' # body
           \<and> list_all2 ci_eq sel (take (length sel) s)
           \<and> list_all is_space ws
           \<and> CHR ''}'' \<notin> set body"
proof -
  let ?d = "drop (length sel) s"
  from assms have p: "prefixBy ci_eq sel s"
    by (auto simp: selectorBlockAt_def split: if_splits)
  from assms p obtain r where r: "dropWhile is_space ?d = CHR ''{'' # r"
    by (auto simp: selectorBlockAt_def split: if_splits list.splits)
  from assms p r obtain e r' where e: "dropWhile (\<lambda>c. c \<noteq> CHR ''}'') r = e # r'"
    and pre: "pre = take (length s - length (e # r')) s"
    by (auto simp: selectorBlockAt_def split: if_splits list.splits)
  let ?ws = "takeWhile is_space ?d"
  let ?body = "takeWhile (\<lambda>c. c \<noteq> CHR ''}'') r"
  have "e = hd (dropWhile (\<lambda>c. c \<noteq> CHR ''}'') r)" using e by simp
  moreover have "dropWhile (\<lambda>c. c \<noteq> CHR ''}'') r \<noteq> []" using e by simp
  ultimately have e': "e = CHR ''}''" using hd_dropWhile[of "\<lambda>c. c \<noteq> CHR ''}''" r] by simp
  have d: "?d = ?ws @ CHR ''{'' # r"
    using takeWhile_dropWhile_id[of is_space ?d] r by simp
  have b: "r = ?body @ CHR ''}'' # r'"
    using takeWhile_dropWhile_id[of "\<lambda>c. c \<noteq> CHR ''}''" r] e e' by simp
  define P where "P = take (length sel) s @ ?ws @ CHR ''{'' # ?body"
  have s: "s = P @ CHR ''}'' # r'"
    unfolding P_def
    using append_take_drop_id[of "length sel" s] d b by (metis append.assoc append_Cons)
  have "length s - length (e # r') = length P"
    by (subst s) simp
  then have "pre = take (length P) (P @ CHR ''}'' # r')"
    using pre s by simp
  then have "pre = P" by simp
  then have pre': "pre = take (length sel) s @ ?ws @ CHR ''{'' # ?body"
    by (simp add: P_def)
  have "list_all2 ci_eq sel (take (length sel) s)" using p by (simp add: prefixBy_iff)
  moreover have "list_all is_space ?ws"
    using set_takeWhileD[of _ is_space ?d] by (auto simp: list_all_iff)
  moreover have "CHR ''}'' \<notin> set ?body"
    using set_takeWhileD[of "CHR ''}''" "\<lambda>c. c \<noteq> CHR ''}''" r] by blast
  moreover have "s = pre @ CHR ''}'' # r'" using s \<open>pre = P\<close> by simp
  ultimately show ?thesis using pre' by blast
qed

lemma replaceBlocks_frame:
  "replaceBlocks lib change s = Some (m, out) \<Longrightarrow>
   (m \<longrightarrow> (\<exists>k. selectorBlockAt (selector change) (drop k s) \<noteq> None)) \<and> (\<not> m \<longrightarrow> out = s)"
proof (induction lib change s arbitrary: m out rule: replaceBlocks.induct)
  case (1 lib change)
  then show ?case by simp
next
  case (2 lib change c cs)
  show ?case
  proof (cases "selectorBlockAt (selector change) (c # cs)")
    case None
    with 2(3) obtain out' where r: "replaceBlocks lib change cs = Some (m, out')" and o: "out = c # out'"
      by (auto split: option.splits)
    from 2(1)[OF None r] have
      ih: "(m \<longrightarrow> (\<exists>k. selectorBlockAt (selector change) (drop k cs) \<noteq> None)) \<and> (\<not> m \<longrightarrow> out' = cs)" .
    show ?thesis
    proof (intro conjI impI)
      assume m
      with ih obtain k where "selectorBlockAt (selector change) (drop k cs) \<noteq> None" by blast
      then have "selectorBlockAt (selector change) (drop (Suc k) (c # cs)) \<noteq> None" by simp
      then show "\<exists>k. selectorBlockAt (selector change) (drop k (c # cs)) \<noteq> None" by blast
    next
      assume "\<not> m"
      with ih o show "out = c # cs" by simp
    qed
  next
    case (Some pre)
    with 2(3) have m by (auto split: option.splits)
    moreover from Some have "selectorBlockAt (selector change) (drop 0 (c # cs)) \<noteq> None" by simp
    ultimately show ?thesis by blast
  qed
qed

lemma selectorBlockAt_rest:
  assumes "selectorBlockAt sel (c # cs) = Some pre"
  shows "pre @ CHR ''}'' # drop (length pre) cs = c # cs"
proof -
  from selectorBlockAt_shape[OF assms] obtain ws body rest where
    s: "c # cs = pre @ CHR ''}'' # rest"
    and p: "pre = take (length sel) (c # cs) @ ws @ CHR ''{'' # body"
    by blast
  from p have "pre \<noteq> []" by simp
  then obtain k where k: "length pre = Suc k" by (cases pre) auto
  from s have "drop (length pre) (c # cs) = CHR ''}'' # rest" by (metis append_eq_conv_conj)
  with k have "drop k cs = CHR ''}'' # rest" by simp
  then have "drop (Suc k) cs = rest" by (metis drop_Suc drop_drop list.sel(3) plus_1_eq_Suc tl_drop)
  with s k show ?thesis by simp
qed

lemma blockSegments_text: "concat (map segmentText (blockSegments sel s)) = s"
proof (induction sel s rule: blockSegments.induct)
  case (1 sel)
  show ?case by simp
next
  case (2 sel c cs)
  show ?case
  proof (cases "selectorBlockAt sel (c # cs)")
    case None
    with 2 show ?thesis by simp
  next
    case (Some pre)
    with 2(2)[OF Some] selectorBlockAt_rest[OF Some] show ?thesis by simp
  qed
qed

lemma blockSegments_shape:
  "Element m pre \<in> set (blockSegments sel s) \<Longrightarrow>
   \<exists>t ws body. m = t @ ws @ ''{'' @ body @ ''}'' \<and> pre = t @ ws @ ''{'' @ body
      \<and> list_all2 ci_eq sel t \<and> list_all is_space ws \<and> CHR ''}'' \<notin> set body"
proof (induction sel s rule: blockSegments.induct)
  case (1 sel)
  then show ?case by simp
next
  case (2 sel c cs)
  show ?case
  proof (cases "selectorBlockAt sel (c # cs)")
    case None
    with 2 show ?thesis by simp
  next
    case (Some pre')
    note ih = 2(2)[OF Some]
    from 2(3) Some consider "m = pre' @ ''}'' \<and> pre = pre'"
      | "Element m pre \<in> set (blockSegments sel (drop (length pre') cs))" by auto
    then show ?thesis
    proof cases
      case 1
      from selectorBlockAt_shape[OF Some] obtain ws body where
        "pre' = take (length sel) (c # cs) @ ws @ CHR ''{'' # body"
        "list_all2 ci_eq sel (take (length sel) (c # cs))"
        "list_all is_space ws" "CHR ''}'' \<notin> set body"
        by blast
      with 1 have "m = take (length sel) (c # cs) @ ws @ ''{'' @ body @ ''}''
          \<and> pre = take (length sel) (c # cs) @ ws @ ''{'' @ body
          \<and> list_all2 ci_eq sel (take (length sel) (c # cs))
          \<and> list_all is_space ws \<and> CHR ''}'' \<notin> set body"
        by simp
      then show ?thesis by blast
    next
      case 2
      with ih show ?thesis by simp
    qed
  qed
qed

lemma replaceBlocks_segments:
  "replaceBlocks lib change s =
     map_option (\<lambda>out. (list_ex isElement (blockSegments (selector change) s), out))
       (joinSegments (map (patchSegment lib change) (blockSegments (selector change) s)))"
proof (induction lib change s rule: replaceBlocks.induct)
  case (1 lib change)
  show ?case by simp
next
  case (2 lib change c cs)
  show ?case
  proof (cases "selectorBlockAt (selector change) (c # cs)")
    case None
    with 2(1)[OF None] show ?thesis
      by (cases "joinSegments (map (patchSegment lib change) (blockSegments (selector change) cs))")
         simp_all
  next
    case (Some pre)
    note ih = 2(2)[OF Some]
    show ?thesis
    proof (cases "regexCallback lib change pre")
      case None
      with Some show ?thesis by simp
    next
      case (Some r)
      with \<open>selectorBlockAt (selector change) (c # cs) = Some pre\<close> ih show ?thesis
        by (cases "joinSegments (map (patchSegment lib change)
                      (blockSegments (selector change) (drop (length pre) cs)))")
           simp_all
    qed
  qed
qed

lemma modifyCssContent_fallback:
  assumes "parse lib css = None
           \<or> (\<exists>ast. parse lib css = Some ast \<and> parse_value lib (css_value change) = None
                 \<and> (\<exists>pre \<in> set (preludes ast). matchesSelector lib change pre))"
  shows "modifyCssContent lib css change = applyWithRegex lib css change"
proof (cases "parse lib css")
  case None
  then show ?thesis by (simp add: modifyCssContent_def)
next
  case (Some ast)
  with assms have "parse_value lib (css_value change) = None"
    and "\<exists>pre \<in> set (preludes ast). matchesSelector lib change pre" by auto
  then have "walkRules lib change ast = None" by (rule walkRules_throws)
  with Some show ?thesis by (simp add: modifyCssContent_def)
qed

text \<open>
  Claim C7, refuted as stated.  In the fragment \<^verbatim>\<open>.card{color:blue;}.Card{color:blue;}\<close> the
  first rule has the selector of the change \<^verbatim>\<open>.card {color: red !important}\<close>; the value does
  not parse, and the text patcher takes over.  It rewrites the block of the second rule too:
  the text of that rule does not contain the selector of the change.
\<close>

theorem modifyCssContent_other_case:
  "parse demoLib ''.card{color:blue;}.Card{color:blue;}''
     = Some [Rule ''.card'' [Declaration ''color'' ''blue'' False],
             Rule ''.Card'' [Declaration ''color'' ''blue'' False]]
   \<and> parse_value demoLib (css_value cardImportant) = None
   \<and> \<not> includes_str ''.Card{color:blue;}'' (selector cardImportant)
   \<and> modifyCssContent demoLib ''.card{color:blue;}.Card{color:blue;}'' cardImportant
       = Some (True, ''.card{color: red !important;}.Card{color: red !important;}'')"
  by code_simp

text \<open>
  Claim C7, amended.  The text patcher is what the mutation engine returns when the fragment
  does not parse, or when the value does not parse and some rule has the selector of the
  change.  It cuts the fragment into the matches of the selector expression and the characters
  between them.  A match is the selector of the change, compared code unit by code unit without
  regard to letter case, followed by white space, if any, by \<^verbatim>\<open>{\<close>, by a text without \<^verbatim>\<open>}\<close>
  and by \<^verbatim>\<open>}\<close>; it may begin inside a longer selector.  The result is the fragment in which
  every match is replaced by what the callback makes of it and every other character is kept;
  it counts as modified when there is a match, and without one the fragment is returned as it
  was.  Normalisation is not applied: the selectors \<^verbatim>\<open>.a>.b\<close> and \<^verbatim>\<open>.a > .b\<close> have the same
  normal form, and the block of the first is not rewritten for the second.
\<close>

theorem applyWithRegex_matches_literally:
  "(parse lib css = None
      \<or> (\<exists>ast. parse lib css = Some ast \<and> parse_value lib (css_value change) = None
            \<and> (\<exists>pre \<in> set (preludes ast). matchesSelector lib change pre))
      \<longrightarrow> modifyCssContent lib css change = applyWithRegex lib css change)
   \<and> css = concat (map segmentText (blockSegments (selector change) css))
   \<and> (\<forall>m pre. Element m pre \<in> set (blockSegments (selector change) css) \<longrightarrow>
         (\<exists>t ws body. m = t @ ws @ ''{'' @ body @ ''}'' \<and> pre = t @ ws @ ''{'' @ body
             \<and> list_all2 ci_eq (selector change) t \<and> list_all is_space ws
             \<and> CHR ''}'' \<notin> set body))
   \<and> applyWithRegex lib css change =
       map_option (\<lambda>out. (list_ex isElement (blockSegments (selector change) css), out))
         (joinSegments (map (patchSegment lib change) (blockSegments (selector change) css)))
   \<and> (\<forall>m out. applyWithRegex lib css change = Some (m, out) \<longrightarrow>
         (m \<longrightarrow> (\<exists>k. selectorBlockAt (selector change) (drop k css) \<noteq> None))
         \<and> (\<not> m \<longrightarrow> out = css))
   \<and> normalizeSelector ''.a>.b'' = normalizeSelector (selector childRed)
   \<and> applyWithRegex lib ''.a>.b{color:blue}'' childRed = Some (False, ''.a>.b{color:blue}'')"
proof (intro conjI allI impI)
  assume "parse lib css = None
      \<or> (\<exists>ast. parse lib css = Some ast \<and> parse_value lib (css_value change) = None
            \<and> (\<exists>pre \<in> set (preludes ast). matchesSelector lib change pre))"
  then show "modifyCssContent lib css change = applyWithRegex lib css change"
    by (rule modifyCssContent_fallback)
next
  show "css = concat (map segmentText (blockSegments (selector change) css))"
    by (simp add: blockSegments_text)
next
  fix m pre
  assume "Element m pre \<in> set (blockSegments (selector change) css)"
  then show "\<exists>t ws body. m = t @ ws @ ''{'' @ body @ ''}'' \<and> pre = t @ ws @ ''{'' @ body
             \<and> list_all2 ci_eq (selector change) t \<and> list_all is_space ws
             \<and> CHR ''}'' \<notin> set body"
    by (rule blockSegments_shape)
next
  show "applyWithRegex lib css change =
       map_option (\<lambda>out. (list_ex isElement (blockSegments (selector change) css), out))
         (joinSegments (map (patchSegment lib change) (blockSegments (selector change) css)))"
    by (simp add: applyWithRegex_def replaceBlocks_segments)
next
  fix m out
  assume a: "applyWithRegex lib css change = Some (m, out)"
  { assume m
    with a show "\<exists>k. selectorBlockAt (selector change) (drop k css) \<noteq> None"
      using replaceBlocks_frame[of lib change css m out] by (simp add: applyWithRegex_def) }
  { assume "\<not> m"
    with a show "out = css"
      using replaceBlocks_frame[of lib change css m out] by (simp add: applyWithRegex_def) }
next
  show "normalizeSelector ''.a>.b'' = normalizeSelector (selector childRed)" by code_simp
next
  have "blockSegments (selector childRed) ''.a>.b{color:blue}'' = map Plain ''.a>.b{color:blue}''"
    by code_simp
  then show "applyWithRegex lib ''.a>.b{color:blue}'' childRed = Some (False, ''.a>.b{color:blue}'')"
    by (simp add: applyWithRegex_def replaceBlocks_segments)
qed

theorem applyWithRegex_matches_literally_witness:
  "parse demoLib ''.card{color:blue;}.Card  {color:blue;}''
     = Some [Rule ''.card'' [Declaration ''color'' ''blue'' False],
             Rule ''.Card'' [Declaration ''color'' ''blue'' False]]
   \<and> parse_value demoLib (css_value cardImportant) = None
   \<and> matchesSelector demoLib cardImportant ''.card''
   \<and> blockSegments (selector cardImportant) ''.card{color:blue;}.Card  {color:blue;}''
       = [Element ''.card{color:blue;}'' ''.card{color:blue;'',
          Element ''.Card  {color:blue;}'' ''.Card  {color:blue;'']
   \<and> ''.Card  {color:blue;}'' = ''.Card'' @ ''  '' @ ''{'' @ ''color:blue;'' @ ''}''
   \<and> list_all2 ci_eq (selector cardImportant) ''.Card''
   \<and> modifyCssContent demoLib ''.card{color:blue;}.Card  {color:blue;}'' cardImportant
       = Some (True, ''.card{color: red !important;}.Card  {color: red !important;}'')
   \<and> applyWithRegex demoLib ''.a>.b{color:blue}'' childRed = Some (False, ''.a>.b{color:blue}'')"
proof -
  let ?css = "''.card{color:blue;}.Card  {color:blue;}''"
  let ?ast = "[Rule ''.card'' [Declaration ''color'' ''blue'' False],
               Rule ''.Card'' [Declaration ''color'' ''blue'' False]]"
  have p: "parse demoLib ?css = Some ?ast" by code_simp
  have v: "parse_value demoLib (css_value cardImportant) = None" by code_simp
  have m: "matchesSelector demoLib cardImportant ''.card''" by code_simp
  then have r: "\<exists>pre \<in> set (preludes ?ast). matchesSelector demoLib cardImportant pre" by simp
  have b: "blockSegments (selector cardImportant) ?css
       = [Element ''.card{color:blue;}'' ''.card{color:blue;'',
          Element ''.Card  {color:blue;}'' ''.Card  {color:blue;'']"
    by code_simp
  have j: "joinSegments (map (patchSegment demoLib cardImportant)
              [Element ''.card{color:blue;}'' ''.card{color:blue;'',
               Element ''.Card  {color:blue;}'' ''.Card  {color:blue;''])
           = Some ''.card{color: red !important;}.Card  {color: red !important;}''"
    by code_simp
  have c: "list_all2 ci_eq (selector cardImportant) ''.Card''" by code_simp
  note t = applyWithRegex_matches_literally[of demoLib ?css cardImportant]
  from t p v r have "modifyCssContent demoLib ?css cardImportant
                       = applyWithRegex demoLib ?css cardImportant"
    by blast
  moreover from t have "applyWithRegex demoLib ?css cardImportant =
       map_option (\<lambda>out. (list_ex isElement (blockSegments (selector cardImportant) ?css), out))
         (joinSegments (map (patchSegment demoLib cardImportant)
            (blockSegments (selector cardImportant) ?css)))"
    by blast
  ultimately have "modifyCssContent demoLib ?css cardImportant
       = Some (True, ''.card{color: red !important;}.Card  {color: red !important;}'')"
    by (simp only: b j) simp
  moreover from t have "applyWithRegex demoLib ''.a>.b{color:blue}'' childRed
                           = Some (False, ''.a>.b{color:blue}'')"
    by blast
  ultimately show ?thesis using p v m b c by simp
qed

section \<open>Reading the styles of a selector\<close>

lemma linkedStyles_None:
  "linkedStyles lib pth w sel st f = None \<longleftrightarrow> files w (resolve pth f) = Some Directory"
  by (auto simp: linkedStyles_def existsSync_def readFileSync_def
           split: option.splits entry.splits)

lemma foldLinked_None:
  "foldLinked lib pth w sel st linked = None \<longleftrightarrow>
     (\<exists>f \<in> set linked. files w (resolve pth f) = Some Directory)"
proof (induction linked arbitrary: st)
  case Nil
  show ?case by simp
next
  case (Cons f linked)
  show ?case
  proof (cases "linkedStyles lib pth w sel st f")
    case None
    then show ?thesis using linkedStyles_None[of lib pth w sel st f] by simp
  next
    case (Some st')
    then have "files w (resolve pth f) \<noteq> Some Directory"
      using linkedStyles_None[of lib pth w sel st f] by simp
    with Some Cons show ?thesis by simp
  qed
qed

lemma foldLinked_eq:
  "foldLinked lib pth w sel st linked = Some m \<Longrightarrow>
   m = foldl (\<lambda>st css. st ++ extractStylesFromCss lib css sel) st
         (List.map_filter (readFileSync pth w) linked)"
proof (induction linked arbitrary: st)
  case Nil
  then show ?case by (simp add: List.map_filter_simps)
next
  case (Cons f linked)
  from Cons.prems obtain st' where l: "linkedStyles lib pth w sel st f = Some st'"
    and r: "foldLinked lib pth w sel st' linked = Some m"
    by (auto split: option.splits)
  show ?case
  proof (cases "readFileSync pth w f")
    case None
    with l have "st' = st"
      by (auto simp: linkedStyles_def split: if_splits)
    with Cons.IH[OF r] None show ?thesis by (simp add: List.map_filter_simps)
  next
    case (Some css)
    with l have "st' = st ++ extractStylesFromCss lib css sel"
      by (auto simp: linkedStyles_def readFileSync_def existsSync_def
               split: if_splits option.splits)
    with Cons.IH[OF r] Some show ?thesis by (simp add: List.map_filter_simps)
  qed
qed

lemma foldl_skip_empty:
  "(\<And>x. \<not> P x \<Longrightarrow> g x = Map.empty) \<Longrightarrow>
   foldl (\<lambda>st x. st ++ g x) st xs = foldl (\<lambda>st x. st ++ g x) st (filter P xs)"
  by (induction xs arbitrary: st) auto

lemma extractStylesFromCss_throw:
  "parse lib css = None \<Longrightarrow> extractStylesFromCss lib css sel = Map.empty"
  by (simp add: extractStylesFromCss_def)

lemma getStylesForSelector_eq:
  assumes "readFileSync pth w htmlPath = Some html"
    and "getStylesForSelector lib pth w htmlPath sel = Some m"
  shows "m = foldl (\<lambda>st css. st ++ extractStylesFromCss lib css sel) Map.empty
               (cssFragments pth w htmlPath html)"
proof -
  from assms have "foldLinked lib pth w sel
       (foldl (\<lambda>st cssContent. st ++ extractStylesFromCss lib cssContent sel) Map.empty
          (styleContents html))
       (findLinkedCssFiles pth html (dirname pth htmlPath)) = Some m"
    by (simp add: getStylesForSelector_def existsSync_def readFileSync_def
          split: option.splits entry.splits if_splits)
  from foldLinked_eq[OF this] show ?thesis by (simp add: cssFragments_def)
qed

lemma getStylesForSelector_None:
  "getStylesForSelector lib pth w htmlPath sel = None \<longleftrightarrow>
     files w (resolve pth htmlPath) = Some Directory
     \<or> (\<exists>html. files w (resolve pth htmlPath) = Some (File html)
          \<and> (\<exists>f \<in> set (findLinkedCssFiles pth html (dirname pth htmlPath)).
                files w (resolve pth f) = Some Directory))"
proof (cases "files w (resolve pth htmlPath)")
  case None
  then show ?thesis by (simp add: getStylesForSelector_def existsSync_def)
next
  case (Some e)
  show ?thesis
  proof (cases e)
    case (File html)
    with Some show ?thesis
      by (simp add: getStylesForSelector_def existsSync_def readFileSync_def foldLinked_None)
  next
    case Directory
    with Some show ?thesis
      by (simp add: getStylesForSelector_def existsSync_def readFileSync_def)
  qed
qed

text \<open>
  Claim C9, refuted as stated.  The page \<^verbatim>\<open>gallery.html\<close> has a link whose target \<^verbatim>\<open>assets\<close>
  is a directory: it exists, and reading it throws.  So does reading the document when the
  path given is that of a directory.
\<close>

theorem getStylesForSelector_directory:
  "existsSync demoPath galleryWorld ''/site/gallery.html''
   \<and> readFileSync demoPath galleryWorld ''/site/gallery.html'' = Some demoGallery
   \<and> findLinkedCssFiles demoPath demoGallery (dirname demoPath ''/site/gallery.html'')
       = [''/site/assets'']
   \<and> files galleryWorld ''/site/assets'' = Some Directory
   \<and> getStylesForSelector demoLib demoPath galleryWorld ''/site/gallery.html'' ''h1'' = None
   \<and> getStylesForSelector demoLib demoPath galleryWorld ''/site/assets'' ''h1'' = None"
  by code_simp

text \<open>
  Claim C9, amended.  \<open>getStylesForSelector\<close> throws exactly when the path of the document is
  that of a directory, or the document is a file with a link to a local path that is a
  directory; nothing in the function catches the exception of a read.  For a path that does
  not exist the result is the empty mapping.  A fragment on which the parser throws gives the
  empty mapping, and a result is the one obtained from the other embedded and linked fragments
  alone, in order.
\<close>

theorem getStylesForSelector_result:
  "(getStylesForSelector lib pth w htmlPath sel = None \<longleftrightarrow>
      files w (resolve pth htmlPath) = Some Directory
      \<or> (\<exists>html. files w (resolve pth htmlPath) = Some (File html)
           \<and> (\<exists>f \<in> set (findLinkedCssFiles pth html (dirname pth htmlPath)).
                 files w (resolve pth f) = Some Directory)))
   \<and> (\<not> existsSync pth w htmlPath \<longrightarrow>
         getStylesForSelector lib pth w htmlPath sel = Some Map.empty)
   \<and> (\<forall>css. parse lib css = None \<longrightarrow> extractStylesFromCss lib css sel = Map.empty)
   \<and> (\<forall>html m. readFileSync pth w htmlPath = Some html \<longrightarrow>
         getStylesForSelector lib pth w htmlPath sel = Some m \<longrightarrow>
         m = foldl (\<lambda>st css. st ++ extractStylesFromCss lib css sel) Map.empty
               (filter (\<lambda>css. parse lib css \<noteq> None) (cssFragments pth w htmlPath html)))"
proof (intro conjI allI impI)
  show "getStylesForSelector lib pth w htmlPath sel = None \<longleftrightarrow>
      files w (resolve pth htmlPath) = Some Directory
      \<or> (\<exists>html. files w (resolve pth htmlPath) = Some (File html)
           \<and> (\<exists>f \<in> set (findLinkedCssFiles pth html (dirname pth htmlPath)).
                 files w (resolve pth f) = Some Directory))"
    by (rule getStylesForSelector_None)
next
  assume "\<not> existsSync pth w htmlPath"
  then show "getStylesForSelector lib pth w htmlPath sel = Some Map.empty"
    by (simp add: getStylesForSelector_def)
next
  fix css
  assume "parse lib css = None"
  then show "extractStylesFromCss lib css sel = Map.empty" by (rule extractStylesFromCss_throw)
next
  fix html m
  assume h: "readFileSync pth w htmlPath = Some html"
    and g: "getStylesForSelector lib pth w htmlPath sel = Some m"
  have "foldl (\<lambda>st css. st ++ extractStylesFromCss lib css sel) Map.empty
          (cssFragments pth w htmlPath html) =
        foldl (\<lambda>st css. st ++ extractStylesFromCss lib css sel) Map.empty
          (filter (\<lambda>css. parse lib css \<noteq> None) (cssFragments pth w htmlPath html))"
    by (rule foldl_skip_empty) (simp add: extractStylesFromCss_throw)
  with getStylesForSelector_eq[OF h g]
  show "m = foldl (\<lambda>st css. st ++ extractStylesFromCss lib css sel) Map.empty
               (filter (\<lambda>css. parse lib css \<noteq> None) (cssFragments pth w htmlPath html))"
    by simp
qed

theorem getStylesForSelector_result_witness:
  "\<not> existsSync demoPath demoWorld ''/site/missing.html''
   \<and> map_option (\<lambda>m. m ''color'')
        (getStylesForSelector demoLib demoPath demoWorld ''/site/missing.html'' ''h1'') = Some None
   \<and> parse demoLib ''h1{{'' = None
   \<and> readFileSync demoPath demoWorld ''/site/broken.html''
       = Some ''<style>h1{{</style><style>h1{color:green;}</style>''
   \<and> cssFragments demoPath demoWorld ''/site/broken.html''
        ''<style>h1{{</style><style>h1{color:green;}</style>'' = [''h1{{'', ''h1{color:green;}'']
   \<and> map_option (\<lambda>m. m ''color'')
        (getStylesForSelector demoLib demoPath demoWorld ''/site/broken.html'' ''h1'')
       = Some (Some ''green'')
   \<and> files galleryWorld (resolve demoPath ''/site/assets'') = Some Directory
   \<and> getStylesForSelector demoLib demoPath galleryWorld ''/site/assets'' ''h1'' = None"
proof -
  let ?html = "''<style>h1{{</style><style>h1{color:green;}</style>''"
  note t1 = getStylesForSelector_result[of demoLib demoPath demoWorld "''/site/missing.html''" "''h1''"]
  note t2 = getStylesForSelector_result[of demoLib demoPath demoWorld "''/site/broken.html''" "''h1''"]
  note t3 = getStylesForSelector_result[of demoLib demoPath galleryWorld "''/site/assets''" "''h1''"]
  have e: "\<not> existsSync demoPath demoWorld ''/site/missing.html''" by code_simp
  have p: "parse demoLib ''h1{{'' = None" by code_simp
  have r: "readFileSync demoPath demoWorld ''/site/broken.html'' = Some ?html" by code_simp
  have f: "cssFragments demoPath demoWorld ''/site/broken.html'' ?html = [''h1{{'', ''h1{color:green;}'']"
    by code_simp
  have k: "filter (\<lambda>css. parse demoLib css \<noteq> None) [''h1{{'', ''h1{color:green;}''] = [''h1{color:green;}'']"
    by code_simp
  have x: "extractStylesFromCss demoLib ''h1{color:green;}'' ''h1'' ''color'' = Some ''green''"
    by code_simp
  have d: "files galleryWorld (resolve demoPath ''/site/assets'') = Some Directory" by code_simp
  have nd: "files demoWorld (resolve demoPath ''/site/broken.html'') = Some (File ?html)" by code_simp
  have nl: "findLinkedCssFiles demoPath ?html (dirname demoPath ''/site/broken.html'') = []"
    by code_simp
  from t1 e have a: "getStylesForSelector demoLib demoPath demoWorld ''/site/missing.html'' ''h1'' = Some Map.empty"
    by blast
  from t2 p have "extractStylesFromCss demoLib ''h1{{'' ''h1'' = Map.empty" by blast
  from t2 nd nl have "getStylesForSelector demoLib demoPath demoWorld ''/site/broken.html'' ''h1'' \<noteq> None"
    by simp
  then obtain m where
    g: "getStylesForSelector demoLib demoPath demoWorld ''/site/broken.html'' ''h1'' = Some m"
    by auto
  from t2 r g have "m =
      foldl (\<lambda>st css. st ++ extractStylesFromCss demoLib css ''h1'') Map.empty
              (filter (\<lambda>css. parse demoLib css \<noteq> None)
                 (cssFragments demoPath demoWorld ''/site/broken.html'' ?html))"
    by blast
  then have b: "m = Map.empty ++ extractStylesFromCss demoLib ''h1{color:green;}'' ''h1''"
    by (simp only: f k foldl.simps)
  from t3 d have c: "getStylesForSelector demoLib demoPath galleryWorld ''/site/assets'' ''h1'' = None"
    by blast
  from a b c g d e p r f x show ?thesis by simp
qed

section \<open>The session coordinator\<close>

lemma waiters_ok_initial: "waiters_ok (initial w)"
  by (simp add: waiters_ok_def initial_def)

lemma broadcast_waiters [simp]:
  "selectionResolvers (broadcast msg st) = selectionResolvers st"
  "settled (broadcast msg st) = settled st"
  "nextWaiter (broadcast msg st) = nextWaiter st"
  "timers (broadcast msg st) = timers st"
  by (simp_all add: broadcast_def)

lemma handleMessage_other:
  assumes "handleMessage lib pth st m ws = Some st'" and "\<forall>payload. m \<noteq> ElementSelected payload"
  shows "selectionResolvers st' = selectionResolvers st \<and> settled st' = settled st
         \<and> nextWaiter st' = nextWaiter st \<and> timers st' = timers st"
proof (cases m)
  case (ElementSelected payload)
  with assms(2) show ?thesis by simp
next
  case Ping
  with assms(1) show ?thesis by auto
next
  case Ready
  with assms(1) show ?thesis by (auto split: option.splits)
next
  case (LoadHtml payload)
  with assms(1) show ?thesis by (auto split: option.splits)
next
  case (ApplyCss payload)
  show ?thesis
  proof (cases "payload = None \<or> currentHtml st = None")
    case True
    with ApplyCss assms(1) have "st' = st" by (auto split: option.splits)
    then show ?thesis by simp
  next
    case False
    then obtain c d where pd: "payload = Some c" "currentHtml st = Some d" by auto
    with ApplyCss assms(1) obtain res w' where
      a: "applyCssChange lib pth (disk st) (filePath d) c = Some (res, w')"
      by (auto split: option.splits)
    show ?thesis
    proof (cases "success res")
      case False
      with ApplyCss assms(1) pd a have "st' = st\<lparr>disk := w'\<rparr>" by simp
      then show ?thesis by simp
    next
      case True
      with ApplyCss assms(1) pd a obtain u where
        "st' = broadcast (CssApplied c)
                 (broadcast (LoadHtmlOut \<lparr>filePath = filePath d, content = u\<rparr>)
                    (st\<lparr>disk := w',
                        currentHtml := Some \<lparr>filePath = filePath d, content = u\<rparr>\<rparr>))"
        by (auto split: option.splits)
      then show ?thesis by simp
    qed
  qed
next
  case (UnknownType t)
  with assms(1) show ?thesis by auto
qed

lemma waiters_ok_selected:
  assumes "waiters_ok st"
  shows "waiters_ok (st\<lparr>selectedElement := payload,
              settled := settled st @ map (\<lambda>r. (r, Resolved payload)) (selectionResolvers st),
              selectionResolvers := []\<rparr>)"
proof -
  from assms have d: "distinct (selectionResolvers st)" "distinct (map fst (settled st))"
    and x: "set (selectionResolvers st) \<inter> fst ` set (settled st) = {}"
    and u: "set (selectionResolvers st) \<union> fst ` set (settled st) = {..< nextWaiter st}"
    by (simp_all add: waiters_ok_def)
  let ?new = "map (\<lambda>r. (r, Resolved payload)) (selectionResolvers st)"
  have m: "map fst ?new = selectionResolvers st"
    by (simp add: comp_def)
  have "distinct (map fst (settled st) @ selectionResolvers st)"
    using d x by auto
  then have d': "distinct (map fst (settled st @ ?new))"
    using m by simp
  have "fst ` set (settled st @ ?new) = fst ` set (settled st) \<union> set (map fst ?new)"
    by (simp only: set_append image_Un set_map)
  then have u': "fst ` set (settled st @ ?new) = {..< nextWaiter st}"
    using u m by auto
  from d' u' show ?thesis
    by (simp add: waiters_ok_def)
qed

lemma waiters_ok_wait:
  assumes "waiters_ok st"
  shows "waiters_ok (waitForSelection st)"
proof -
  from assms have d: "distinct (selectionResolvers st)" "distinct (map fst (settled st))"
    and x: "set (selectionResolvers st) \<inter> fst ` set (settled st) = {}"
    and u: "set (selectionResolvers st) \<union> fst ` set (settled st) = {..< nextWaiter st}"
    and t: "set (selectionResolvers st) \<subseteq> set (timers st)"
    by (simp_all add: waiters_ok_def)
  have "nextWaiter st \<notin> {..< nextWaiter st}" by simp
  with u have fresh: "nextWaiter st \<notin> set (selectionResolvers st)"
    "nextWaiter st \<notin> fst ` set (settled st)" by blast+
  show ?thesis
  proof (cases "selectedElement st")
    case None
    have "insert (nextWaiter st) (set (selectionResolvers st)) \<union> fst ` set (settled st)
            = {..< Suc (nextWaiter st)}"
      using u by (auto simp: lessThan_Suc)
    with None d x t fresh show ?thesis
      by (simp add: waiters_ok_def waitForSelection_def) blast
  next
    case (Some e)
    have "set (selectionResolvers st) \<union> insert (nextWaiter st) (fst ` set (settled st))
            = {..< Suc (nextWaiter st)}"
      using u by (auto simp: lessThan_Suc)
    with Some d x t fresh show ?thesis
      by (simp add: waiters_ok_def waitForSelection_def)
  qed
qed

lemma remove1_keeps: "x \<noteq> r \<Longrightarrow> x \<in> set xs \<Longrightarrow> x \<in> set (remove1 r xs)"
  by simp

lemma waiters_ok_timeout:
  assumes "waiters_ok st"
  shows "waiters_ok (timeout st r)"
proof -
  from assms have d: "distinct (selectionResolvers st)" "distinct (map fst (settled st))"
    and x: "set (selectionResolvers st) \<inter> fst ` set (settled st) = {}"
    and u: "set (selectionResolvers st) \<union> fst ` set (settled st) = {..< nextWaiter st}"
    and t: "set (selectionResolvers st) \<subseteq> set (timers st)"
    by (simp_all add: waiters_ok_def)
  show ?thesis
  proof (cases "r \<in> set (selectionResolvers st)")
    case False
    have "x \<in> set (remove1 r (timers st))" if "x \<in> set (selectionResolvers st)" for x
    proof -
      from that False have "x \<noteq> r" by blast
      moreover from that t have "x \<in> set (timers st)" by blast
      ultimately show ?thesis by (rule remove1_keeps)
    qed
    then have "set (selectionResolvers st) \<subseteq> set (remove1 r (timers st))" by blast
    with False d x u show ?thesis by (simp add: waiters_ok_def timeout_def)
  next
    case True
    have s: "set (remove1 r (selectionResolvers st)) = set (selectionResolvers st) - {r}"
      using d(1) by (rule set_remove1_eq)
    from True x have n: "r \<notin> fst ` set (settled st)" by blast
    have "x \<in> set (remove1 r (timers st))" if "x \<in> set (selectionResolvers st) - {r}" for x
    proof -
      from that have "x \<noteq> r" by blast
      moreover from that t have "x \<in> set (timers st)" by blast
      ultimately show ?thesis by (rule remove1_keeps)
    qed
    then have t': "set (selectionResolvers st) - {r} \<subseteq> set (remove1 r (timers st))" by blast
    have u': "set (selectionResolvers st) - {r} \<union> insert r (fst ` set (settled st))
                = {..< nextWaiter st}"
      using u True by blast
    have x': "(set (selectionResolvers st) - {r}) \<inter> insert r (fst ` set (settled st)) = {}"
      using x by blast
    from True d n s t' u' x' show ?thesis
      by (simp add: waiters_ok_def timeout_def distinct_remove1)
  qed
qed

lemma waiters_ok_step:
  assumes "waiters_ok st" and "step lib pth st e = Some st'"
  shows "waiters_ok st'"
proof (cases e)
  case (Message m ws)
  show ?thesis
  proof (cases "\<exists>payload. m = ElementSelected payload")
    case True
    then obtain payload where "m = ElementSelected payload" by blast
    with Message assms(2) waiters_ok_selected[OF assms(1), of payload] show ?thesis by auto
  next
    case False
    with Message assms(2) handleMessage_other[of lib pth st m ws st'] assms(1)
    show ?thesis unfolding waiters_ok_def by simp
  qed
next
  case WaitForSelection
  with assms waiters_ok_wait show ?thesis by auto
next
  case (TimerFires r)
  with assms waiters_ok_timeout show ?thesis by (auto split: if_splits)
qed

lemma waiters_ok_run:
  "waiters_ok st \<Longrightarrow> run lib pth st events = Some st' \<Longrightarrow> waiters_ok st'"
proof (induction events arbitrary: st)
  case Nil
  then show ?case by simp
next
  case (Cons e events)
  from Cons.prems(2) obtain st1 where s: "step lib pth st e = Some st1"
    and r: "run lib pth st1 events = Some st'"
    by (auto split: option.splits)
  from waiters_ok_step[OF Cons.prems(1) s] r show ?case by (rule Cons.IH)
qed


text \<open>
  Claim C6.  A message \<^verbatim>\<open>element-selected\<close> stores its payload as the selection, resolves every
  waiter of the queue with that payload and empties the queue.  A call of \<open>waitForSelection\<close>
  with a selection is resolved at once with it, and the queue and the timers stay as they are;
  without a selection its waiter joins the queue and its timer is started.  When the timer of
  a waiter of the queue fires, the waiter leaves the queue and its call is rejected.  In every
  state that the event loop reaches, no call has been settled twice, and every call made so far
  either waits in the queue, with its timer pending, or has been settled, by one resolution or
  by one rejection.
\<close>

theorem selection_waiters:
  "(\<exists>st'. handleMessage lib pth st (ElementSelected payload) ws = Some st'
          \<and> selectedElement st' = payload
          \<and> settled st' = settled st @ map (\<lambda>r. (r, Resolved payload)) (selectionResolvers st)
          \<and> selectionResolvers st' = [])
   \<and> (\<forall>element. selectedElement st = Some element \<longrightarrow>
          selectionResolvers (waitForSelection st) = selectionResolvers st
          \<and> timers (waitForSelection st) = timers st
          \<and> settled (waitForSelection st) = settled st @ [(nextWaiter st, Resolved (Some element))])
   \<and> (selectedElement st = None \<longrightarrow>
          selectionResolvers (waitForSelection st) = selectionResolvers st @ [nextWaiter st]
          \<and> timers (waitForSelection st) = timers st @ [nextWaiter st]
          \<and> settled (waitForSelection st) = settled st)
   \<and> (r \<in> set (timers st) \<and> r \<in> set (selectionResolvers st) \<and> distinct (selectionResolvers st) \<longrightarrow>
          (\<exists>st'. step lib pth st (TimerFires r) = Some st'
             \<and> r \<notin> set (selectionResolvers st')
             \<and> set (selectionResolvers st') = set (selectionResolvers st) - {r}
             \<and> settled st' = settled st @ [(r, Rejected)]))
   \<and> waiters_ok (initial w)
   \<and> (\<forall>st'. waiters_ok st \<and> run lib pth st events = Some st' \<longrightarrow> waiters_ok st')"
proof (intro conjI allI impI)
  show "\<exists>st'. handleMessage lib pth st (ElementSelected payload) ws = Some st'
          \<and> selectedElement st' = payload
          \<and> settled st' = settled st @ map (\<lambda>r. (r, Resolved payload)) (selectionResolvers st)
          \<and> selectionResolvers st' = []"
    by simp
next
  fix element
  assume "selectedElement st = Some element"
  then show "selectionResolvers (waitForSelection st) = selectionResolvers st"
    and "timers (waitForSelection st) = timers st"
    and "settled (waitForSelection st) = settled st @ [(nextWaiter st, Resolved (Some element))]"
    by (simp_all add: waitForSelection_def)
next
  assume "selectedElement st = None"
  then show "selectionResolvers (waitForSelection st) = selectionResolvers st @ [nextWaiter st]"
    and "timers (waitForSelection st) = timers st @ [nextWaiter st]"
    and "settled (waitForSelection st) = settled st"
    by (simp_all add: waitForSelection_def)
next
  assume a: "r \<in> set (timers st) \<and> r \<in> set (selectionResolvers st) \<and> distinct (selectionResolvers st)"
  then have "set (remove1 r (selectionResolvers st)) = set (selectionResolvers st) - {r}"
    by (simp add: set_remove1_eq)
  with a show "\<exists>st'. step lib pth st (TimerFires r) = Some st'
             \<and> r \<notin> set (selectionResolvers st')
             \<and> set (selectionResolvers st') = set (selectionResolvers st) - {r}
             \<and> settled st' = settled st @ [(r, Rejected)]"
    by (simp add: timeout_def)
next
  show "waiters_ok (initial w)" by (rule waiters_ok_initial)
next
  fix st'
  assume "waiters_ok st \<and> run lib pth st events = Some st'"
  then show "waiters_ok st'" using waiters_ok_run by blast
qed

theorem selection_waiters_witness:
  "map_option (\<lambda>st. (selectionResolvers st, timers st, settled st, nextWaiter st))
     (run demoLib demoPath (initial demoWorld) demoEvents)
   = Some ([], [], [(0, Rejected), (1, Resolved (Some heading)), (2, Resolved (Some heading))], 3)
   \<and> (\<exists>st'. run demoLib demoPath (initial demoWorld) demoEvents = Some st' \<and> waiters_ok st')
   \<and> selectionResolvers (waitForSelection (initial demoWorld)) = [0]
   \<and> (\<exists>st'. step demoLib demoPath (waitForSelection (initial demoWorld)) (TimerFires 0) = Some st'
          \<and> selectionResolvers st' = [] \<and> settled st' = [(0, Rejected)])
   \<and> settled (waitForSelection ((initial demoWorld)\<lparr>selectedElement := Some heading\<rparr>))
       = [(0, Resolved (Some heading))]"
proof -
  let ?s0 = "initial demoWorld"
  let ?s1 = "waitForSelection ?s0"
  let ?s2 = "?s0\<lparr>selectedElement := Some heading\<rparr>"
  have ev: "map_option (\<lambda>st. (selectionResolvers st, timers st, settled st, nextWaiter st))
     (run demoLib demoPath ?s0 demoEvents)
   = Some ([], [], [(0, Rejected), (1, Resolved (Some heading)), (2, Resolved (Some heading))], 3)"
    by code_simp
  then obtain st' where r: "run demoLib demoPath ?s0 demoEvents = Some st'" by blast
  note t0 = selection_waiters[of demoLib demoPath ?s0 _ _ _ demoWorld demoEvents]
  from t0 have ok0: "waiters_ok ?s0" by blast
  with t0 r have ok: "waiters_ok st'" by blast
  have n0: "selectedElement ?s0 = None" "selectionResolvers ?s0 = []" "nextWaiter ?s0 = 0"
    "settled ?s0 = []" "timers ?s0 = []"
    by (simp_all add: initial_def)
  from t0 n0 have q1: "selectionResolvers ?s1 = [0]" "timers ?s1 = [0]" "settled ?s1 = []"
    by simp_all
  note t1 = selection_waiters[of demoLib demoPath ?s1 _ _ 0]
  from q1 have "0 \<in> set (timers ?s1) \<and> 0 \<in> set (selectionResolvers ?s1) \<and> distinct (selectionResolvers ?s1)"
    by simp
  with t1 obtain st1 where
    f: "step demoLib demoPath ?s1 (TimerFires 0) = Some st1"
       "set (selectionResolvers st1) = set (selectionResolvers ?s1) - {0}"
       "settled st1 = settled ?s1 @ [(0, Rejected)]"
    by blast
  with q1 have f': "selectionResolvers st1 = []" "settled st1 = [(0, Rejected)]" by simp_all
  note t2 = selection_waiters[of demoLib demoPath ?s2]
  have "selectedElement ?s2 = Some heading" by simp
  with t2 have "settled (waitForSelection ?s2) = settled ?s2 @ [(nextWaiter ?s2, Resolved (Some heading))]"
    by blast
  then have i: "settled (waitForSelection ?s2) = [(0, Resolved (Some heading))]"
    by (simp add: initial_def)
  from ev r ok q1 f(1) f' i show ?thesis by blast
qed

text \<open>
  Claim C10.  A message \<^verbatim>\<open>apply-css\<close> without a payload, or received while no document is
  loaded, leaves the whole state as it is: the files and the record of write calls, the
  messages sent, the document, the selection and the queue of waiters.
\<close>

theorem applyCss_without_document:
  assumes "payload = None \<or> currentHtml st = None"
  shows "handleMessage lib pth st (ApplyCss payload) ws = Some st"
  using assms by (auto split: option.splits)

theorem applyCss_without_document_witness:
  "currentHtml (initial demoWorld) = None
   \<and> handleMessage demoLib demoPath (initial demoWorld) (ApplyCss (Some h1red)) 7
       = Some (initial demoWorld)"
proof -
  have n: "currentHtml (initial demoWorld) = None" by (simp add: initial_def)
  then have "Some h1red = None \<or> currentHtml (initial demoWorld) = None" by simp
  from applyCss_without_document[OF this] n show ?thesis by simp
qed

end
